theory Spec2Isabelle
  imports Complex_Main "HOL-Library.AList" "HOL-Library.Char_ord" "HOL-Library.List_Lexorder"
begin

section \<open>Python string helpers\<close>

text \<open>
  The string methods of Python that the sources call, on \<open>string\<close> (a list of
  characters): \<open>s.strip(c)\<close>, \<open>s.split(c)\<close>, \<open>sep.join(parts)\<close>,
  \<open>s.startswith(p)\<close>, \<open>s.endswith(c)\<close> and the slice \<open>s[1:-1]\<close>.
\<close>

definition py_strip :: "char \<Rightarrow> string \<Rightarrow> string" where
  "py_strip c s = rev (dropWhile (\<lambda>x. x = c) (rev (dropWhile (\<lambda>x. x = c) s)))"

fun py_split :: "char \<Rightarrow> string \<Rightarrow> string list" where
  "py_split c [] = [[]]"
| "py_split c (x # xs) =
     (if x = c then [] # py_split c xs
      else (case py_split c xs of
              [] \<Rightarrow> [[x]]
            | w # ws \<Rightarrow> (x # w) # ws))"

fun py_join :: "string \<Rightarrow> string list \<Rightarrow> string" where
  "py_join sep [] = []"
| "py_join sep [p] = p"
| "py_join sep (p # q # ps) = p @ sep @ py_join sep (q # ps)"

fun py_startswith :: "string \<Rightarrow> string \<Rightarrow> bool" where
  "py_startswith s [] = True"
| "py_startswith [] (p # ps) = False"
| "py_startswith (x # xs) (p # ps) = (x = p \<and> py_startswith xs ps)"

definition py_endswith_char :: "string \<Rightarrow> char \<Rightarrow> bool" where
  "py_endswith_char s c = (s \<noteq> [] \<and> last s = c)"

definition py_slice_1_m1 :: "string \<Rightarrow> string" where
  "py_slice_1_m1 s = butlast (tl s)"

section \<open>Policy-path resolver (dependencies.py)\<close>

text \<open>
  \<open>_policy_path_heuristic\<close>: the loop over the segments appends to
  \<open>result_parts\<close>; an empty segment is skipped (\<open>continue\<close>), a segment in braces
  becomes \<open>__name\<close>, any other segment is kept.
\<close>

fun heuristic_loop :: "string list \<Rightarrow> string list \<Rightarrow> string list" where
  "heuristic_loop [] result_parts = result_parts"
| "heuristic_loop (segment # segments) result_parts =
     (if segment = [] then heuristic_loop segments result_parts
      else if py_startswith segment ''{'' \<and> py_endswith_char segment (CHR ''}'')
      then heuristic_loop segments (result_parts @ [''__'' @ py_slice_1_m1 segment])
      else heuristic_loop segments (result_parts @ [segment]))"

definition policy_path_heuristic :: "string \<Rightarrow> string" where
  "policy_path_heuristic path =
     (if path = [] \<or> path = ''/'' then []
      else let segments = py_split (CHR ''/'') (py_strip (CHR ''/'') path);
               result_parts = heuristic_loop segments []
           in if result_parts = [] then [] else ''.'' @ py_join ''.'' result_parts)"

definition resolve_policy_path :: "string \<Rightarrow> string \<Rightarrow> string \<Rightarrow> string" where
  "resolve_policy_path policy_root method path = policy_root @ ''.'' @ method @ policy_path_heuristic path"

text \<open>
  The resolver as the specification words it: strip the slashes, split on \<open>/\<close>, emit
  \<open>__name\<close> for a placeholder and the segment itself otherwise, join with \<open>.\<close>,
  prefix a single \<open>.\<close> when the join is not empty.
\<close>

definition spec_emit_segment :: "string \<Rightarrow> string" where
  "spec_emit_segment segment =
     (if py_startswith segment ''{'' \<and> py_endswith_char segment (CHR ''}'')
      then ''__'' @ py_slice_1_m1 segment else segment)"

definition spec_resolve_policy_path :: "string \<Rightarrow> string \<Rightarrow> string \<Rightarrow> string" where
  "spec_resolve_policy_path policy_root method pattern =
     (let joined = py_join ''.'' (map spec_emit_segment
                     (py_split (CHR ''/'') (py_strip (CHR ''/'') pattern)))
      in policy_root @ ''.'' @ method @ (if joined = [] then [] else ''.'' @ joined))"

text \<open>The same, with the empty segments dropped after the split.\<close>

definition spec_resolve_policy_path_nonempty :: "string \<Rightarrow> string \<Rightarrow> string \<Rightarrow> string" where
  "spec_resolve_policy_path_nonempty policy_root method pattern =
     (let joined = py_join ''.'' (map spec_emit_segment
                     (filter (\<lambda>segment. segment \<noteq> [])
                        (py_split (CHR ''/'') (py_strip (CHR ''/'') pattern))))
      in policy_root @ ''.'' @ method @ (if joined = [] then [] else ''.'' @ joined))"

section \<open>Requests, exceptions and library functions\<close>

text \<open>
  Time is \<open>time.monotonic()\<close>, a float in the source; the model reads it as a real
  number. Every function that reads the clock takes the reading as an argument, one
  argument per call of \<open>time.monotonic()\<close> in its body.
\<close>

type_synonym resource_context = "(string \<times> string) list"

record request =
  req_scope_type :: string
  req_method :: string
  req_path :: string
  path_params :: "(string \<times> string) list"
  headers :: "string \<Rightarrow> string option"
  query_params :: "string \<Rightarrow> string option"

text \<open>
  Exceptions: the classes the sources name, with Python's subclass relation
  (\<open>ConnectionError\<close> and \<open>TimeoutError\<close> are subclasses of \<open>OSError\<close>,
  \<open>UnboundLocalError\<close> of \<open>NameError\<close>, everything of \<open>Exception\<close>).
\<close>

datatype exc_type =
  Exception | OSError | ConnectionError | TimeoutError | RuntimeError
  | AttributeError | NameError | UnboundLocalError | ValueError

datatype py_exception = PyException (exc_class: exc_type) (exc_message: string)

fun issubclass :: "exc_type \<Rightarrow> exc_type \<Rightarrow> bool" where
  "issubclass t Exception = True"
| "issubclass ConnectionError OSError = True"
| "issubclass TimeoutError OSError = True"
| "issubclass UnboundLocalError NameError = True"
| "issubclass t u = (t = u)"

definition isinstance :: "py_exception \<Rightarrow> exc_type \<Rightarrow> bool" where
  "isinstance exc t = issubclass (exc_class exc) t"

text \<open>
  Functions of the Python library that the sources call and that are not part of the
  repository: \<open>fnmatch.fnmatch\<close>, \<open>hashlib.sha256(...).hexdigest()\<close> and
  \<open>str(sorted(d.items()))\<close>. They are parameters of the model.
\<close>

record py_library =
  fnmatch :: "string \<Rightarrow> string \<Rightarrow> bool"
  sha256_hexdigest :: "string \<Rightarrow> string"
  str_sorted_items :: "resource_context \<Rightarrow> string"

section \<open>Circuit breaker (circuit\_breaker.py)\<close>

datatype CircuitState = CLOSED | OPEN | HALF_OPEN

fun state_value :: "CircuitState \<Rightarrow> string" where
  "state_value CLOSED = ''closed''"
| "state_value OPEN = ''open''"
| "state_value HALF_OPEN = ''half_open''"

text \<open>
  The fallback strategy is a string or a callable. A callable gets the request, the
  policy path, the resource context, the (possibly stale) cached decision and the error;
  it returns a decision or raises.
\<close>

datatype FallbackStrategy =
  Strategy string
  | Callable "request \<Rightarrow> string \<Rightarrow> resource_context \<Rightarrow> bool option \<Rightarrow> py_exception
               \<Rightarrow> py_exception + bool"

text \<open>
  The dataclass \<open>CircuitBreaker\<close>: its configuration and its internal state (the
  fields that start with an underscore in the source). A callback is a function that
  returns \<open>None\<close> or the exception it raised. \<open>state_change_calls\<close> is not a field
  of the source: it logs the calls of \<open>on_state_change\<close>.
\<close>

record CircuitBreaker =
  failure_threshold :: int
  success_threshold :: int
  recovery_timeout :: real
  fallback :: FallbackStrategy
  serve_stale_cache :: bool
  stale_cache_ttl :: real
  cache_priority :: "string list option"
  no_stale_for :: "string list option"
  failure_exceptions :: "exc_type list"
  timeout_ms :: int
  on_state_change :: "(string \<Rightarrow> string \<Rightarrow> string \<Rightarrow> py_exception option) option"
  on_fallback :: "(request \<Rightarrow> string \<Rightarrow> bool option \<Rightarrow> bool \<Rightarrow> py_exception option) option"
  half_open_max_requests :: int
  state :: CircuitState
  failure_count :: int
  success_count :: int
  last_failure_time :: "real option"
  last_success_time :: "real option"
  open_since :: "real option"
  half_open_requests :: int
  state_change_calls :: "(string \<times> string \<times> string) list"

text \<open>
  \<open>_transition_to\<close>. \<open>now\<close> is the clock reading taken when the new state is
  \<open>OPEN\<close>. An exception of the callback is caught and logged.
\<close>

definition transition_to :: "CircuitBreaker \<Rightarrow> CircuitState \<Rightarrow> string \<Rightarrow> real \<Rightarrow> CircuitBreaker" where
  "transition_to cb new_state reason now =
     (let old_state = state cb in
      if old_state = new_state then cb
      else
        let cb1 = cb\<lparr>state := new_state\<rparr>;
            cb2 = (if new_state = OPEN
                   then cb1\<lparr>open_since := Some now, half_open_requests := 0\<rparr>
                   else if new_state = CLOSED
                   then cb1\<lparr>failure_count := 0, success_count := 0, open_since := None\<rparr>
                   else if new_state = HALF_OPEN
                   then cb1\<lparr>half_open_requests := 0\<rparr>
                   else cb1)
        in (case on_state_change cb2 of
              None \<Rightarrow> cb2
            | Some callback \<Rightarrow>
                cb2\<lparr>state_change_calls := state_change_calls cb2 @
                       [(state_value old_state, state_value new_state, reason)]\<rparr>))"

definition record_success :: "CircuitBreaker \<Rightarrow> real \<Rightarrow> CircuitBreaker" where
  "record_success cb now =
     (let cb1 = cb\<lparr>last_success_time := Some now, failure_count := 0\<rparr> in
      if state cb1 = HALF_OPEN then
        let cb2 = cb1\<lparr>success_count := success_count cb1 + 1\<rparr> in
        if success_count cb2 \<ge> success_threshold cb2
        then transition_to cb2 CLOSED ''test_succeeded'' now
        else cb2
      else cb1)"

text \<open>
  \<open>record_failure\<close> reads the clock for \<open>_last_failure_time\<close> (\<open>now\<close>) and, when
  it opens the circuit, once more in \<open>_transition_to\<close> (\<open>now_open\<close>).
\<close>

definition record_failure :: "CircuitBreaker \<Rightarrow> py_exception \<Rightarrow> real \<Rightarrow> real \<Rightarrow> CircuitBreaker" where
  "record_failure cb exception now now_open =
     (let cb1 = cb\<lparr>last_failure_time := Some now,
                      failure_count := failure_count cb + 1,
                      success_count := 0\<rparr> in
      if state cb1 = CLOSED then
        (if failure_count cb1 \<ge> failure_threshold cb1
         then transition_to cb1 OPEN ''failure_threshold_exceeded'' now_open
         else cb1)
      else if state cb1 = HALF_OPEN then transition_to cb1 OPEN ''test_failed'' now_open
      else cb1)"

definition should_allow_request :: "CircuitBreaker \<Rightarrow> real \<Rightarrow> bool \<times> CircuitBreaker" where
  "should_allow_request cb now =
     (if state cb = CLOSED then (True, cb)
      else if state cb = OPEN then
        (case open_since cb of
           Some since \<Rightarrow>
             (let elapsed = now - since in
              if elapsed \<ge> recovery_timeout cb
              then (True, (transition_to cb HALF_OPEN ''recovery_timeout_expired'' now)
                             \<lparr>half_open_requests := 1\<rparr>)
              else (False, cb))
         | None \<Rightarrow> (False, cb))
      else if state cb = HALF_OPEN then
        (if half_open_requests cb < half_open_max_requests cb
         then (True, cb\<lparr>half_open_requests := half_open_requests cb + 1\<rparr>)
         else (False, cb))
      else (False, cb))"

definition is_failure_exception :: "CircuitBreaker \<Rightarrow> py_exception \<Rightarrow> bool" where
  "is_failure_exception cb exc = list_ex (isinstance exc) (failure_exceptions cb)"

text \<open>
  \<open>get_fallback_decision\<close>. The loop over \<open>no_stale_for\<close> stops at the first
  pattern that matches the policy path and forgets the cached decision.
\<close>

fun no_stale_loop :: "(string \<Rightarrow> string \<Rightarrow> bool) \<Rightarrow> string \<Rightarrow> string list \<Rightarrow> bool option \<Rightarrow> bool option" where
  "no_stale_loop match policy_path [] cached_decision = cached_decision"
| "no_stale_loop match policy_path (pattern # patterns) cached_decision =
     (if match policy_path pattern then None
      else no_stale_loop match policy_path patterns cached_decision)"

definition get_fallback_decision ::
  "py_library \<Rightarrow> CircuitBreaker \<Rightarrow> request \<Rightarrow> string \<Rightarrow> resource_context \<Rightarrow> bool option
     \<Rightarrow> py_exception \<Rightarrow> py_exception + bool" where
  "get_fallback_decision lib cb req policy_path ctx cached_decision0 error =
     (let cached_decision =
            (case no_stale_for cb of
               Some (pattern # patterns) \<Rightarrow>
                 (if cached_decision0 \<noteq> None
                  then no_stale_loop (fnmatch lib) policy_path (pattern # patterns) cached_decision0
                  else cached_decision0)
             | _ \<Rightarrow> cached_decision0)
      in case fallback cb of
           Callable f \<Rightarrow> f req policy_path ctx cached_decision error
         | Strategy strategy \<Rightarrow>
             if strategy = ''cache_then_deny'' then
               (case cached_decision of Some d \<Rightarrow> Inr d | None \<Rightarrow> Inr False)
             else if strategy = ''cache_then_allow'' then
               (case cached_decision of Some d \<Rightarrow> Inr d | None \<Rightarrow> Inr True)
             else if strategy = ''deny'' then Inr False
             else if strategy = ''allow'' then Inr True
             else Inr False)"

definition reset :: "CircuitBreaker \<Rightarrow> CircuitBreaker" where
  "reset cb =
     (transition_to cb CLOSED ''manual_reset'' 0)
       \<lparr>failure_count := 0, success_count := 0, last_failure_time := None,
        last_success_time := None, open_since := None, half_open_requests := 0\<rparr>"

text \<open>
  Runs of the breaker: an operation is one call of \<open>record_success\<close>,
  \<open>record_failure\<close> or \<open>should_allow_request\<close>, with its clock readings; the
  answer of \<open>should_allow_request\<close> is kept.
\<close>

datatype cb_op = RecordSuccess real | RecordFailure py_exception real real | ShouldAllowRequest real

fun cb_step :: "CircuitBreaker \<Rightarrow> cb_op \<Rightarrow> bool option \<times> CircuitBreaker" where
  "cb_step cb (RecordSuccess now) = (None, record_success cb now)"
| "cb_step cb (RecordFailure e now now_open) = (None, record_failure cb e now now_open)"
| "cb_step cb (ShouldAllowRequest now) =
     (Some (fst (should_allow_request cb now)), snd (should_allow_request cb now))"

fun cb_run :: "CircuitBreaker \<Rightarrow> cb_op list \<Rightarrow> CircuitBreaker" where
  "cb_run cb [] = cb"
| "cb_run cb (operation # ops) = cb_run (snd (cb_step cb operation)) ops"

text \<open>
  The number of \<open>should_allow_request\<close> calls that answer true while the breaker is
  and stays \<open>HALF_OPEN\<close>: the count stops when the breaker leaves that state.
\<close>

fun half_open_admissions :: "CircuitBreaker \<Rightarrow> cb_op list \<Rightarrow> nat" where
  "half_open_admissions cb [] = 0"
| "half_open_admissions cb (operation # ops) =
     (if state cb \<noteq> HALF_OPEN then 0
      else (case cb_step cb operation of
              (answer, cb') \<Rightarrow>
                (if answer = Some True then 1 else 0) + half_open_admissions cb' ops))"

definition is_record_failure :: "cb_op \<Rightarrow> bool" where
  "is_record_failure operation = (case operation of RecordFailure e now now_open \<Rightarrow> True | _ \<Rightarrow> False)"

definition is_record_success :: "cb_op \<Rightarrow> bool" where
  "is_record_success operation = (case operation of RecordSuccess now \<Rightarrow> True | _ \<Rightarrow> False)"

text \<open>
  A breaker as the dataclass constructs it: the internal fields at their defaults.
\<close>

definition initial_breaker :: "CircuitBreaker \<Rightarrow> bool" where
  "initial_breaker cb \<longleftrightarrow>
     state cb = CLOSED \<and> failure_count cb = 0 \<and> success_count cb = 0 \<and>
     last_failure_time cb = None \<and> last_success_time cb = None \<and>
     open_since cb = None \<and> half_open_requests cb = 0"

text \<open>
  What every run of the breaker keeps true: an open circuit knows since when, the success
  streak is only counted while half-open, and a half-open circuit has issued its first
  probe.
\<close>

definition cb_inv :: "CircuitBreaker \<Rightarrow> bool" where
  "cb_inv cb \<longleftrightarrow>
     (state cb = OPEN \<longrightarrow> open_since cb \<noteq> None) \<and>
     (state cb \<noteq> HALF_OPEN \<longrightarrow> success_count cb = 0) \<and>
     (state cb = HALF_OPEN \<longrightarrow> 1 \<le> half_open_requests cb \<and> 0 \<le> success_count cb)"

text \<open>The stale value after the \<open>no_stale_for\<close> filter, as the specification words it.\<close>

definition configured_patterns :: "CircuitBreaker \<Rightarrow> string list" where
  "configured_patterns cb = (case no_stale_for cb of None \<Rightarrow> [] | Some patterns \<Rightarrow> patterns)"

definition spec_stale_value :: "py_library \<Rightarrow> CircuitBreaker \<Rightarrow> string \<Rightarrow> bool option \<Rightarrow> bool option" where
  "spec_stale_value lib cb policy_path stale =
     (if \<exists>pattern \<in> set (configured_patterns cb). fnmatch lib policy_path pattern then None else stale)"

section \<open>Example values\<close>

text \<open>
  A matcher for patterns made of literal characters, \<open>*\<close> and \<open>?\<close> (the fragment of
  \<open>fnmatch\<close> without character classes), and a breaker with the defaults of the
  dataclass. They instantiate the theorems below at concrete inputs.
\<close>

fun glob_match :: "string \<Rightarrow> string \<Rightarrow> bool" where
  "glob_match [] [] = True"
| "glob_match (c # cs) [] = False"
| "glob_match name (p # ps) =
     (if p = CHR ''*'' then
        (glob_match name ps \<or> (case name of [] \<Rightarrow> False | c # cs \<Rightarrow> glob_match cs (p # ps)))
      else if p = CHR ''?'' then
        (case name of [] \<Rightarrow> False | c # cs \<Rightarrow> glob_match cs ps)
      else (case name of [] \<Rightarrow> False | c # cs \<Rightarrow> c = p \<and> glob_match cs ps))"

definition default_breaker :: CircuitBreaker where
  "default_breaker =
     \<lparr>failure_threshold = 5, success_threshold = 2, recovery_timeout = 30,
      fallback = Strategy ''cache_then_deny'', serve_stale_cache = True, stale_cache_ttl = 300,
      cache_priority = None, no_stale_for = None,
      failure_exceptions = [ConnectionError, TimeoutError, OSError], timeout_ms = 5000,
      on_state_change = None, on_fallback = None, half_open_max_requests = 1,
      state = CLOSED, failure_count = 0, success_count = 0, last_failure_time = None,
      last_success_time = None, open_since = None, half_open_requests = 0,
      state_change_calls = []\<rparr>"

definition refused :: cb_op where
  "refused = RecordFailure (PyException ConnectionError ''refused'') 10 10"

definition four_failures :: "cb_op list" where
  "four_failures = [refused, refused, refused, refused]"

definition five_failures :: "cb_op list" where
  "five_failures = [refused, refused, refused, refused, refused]"


definition example_request :: request where
  "example_request =
     \<lparr>req_scope_type = ''http'', req_method = ''GET'', req_path = ''/documents/42'',
      path_params = [(''id'', ''42'')], headers = (\<lambda>name. None), query_params = (\<lambda>name. None)\<rparr>"

text \<open>
  An instance of the library parameters: the matcher above, the identity in place of
  the digest, and a rendering of the items sorted by key.
\<close>

definition example_render :: "resource_context \<Rightarrow> string" where
  "example_render ctx =
     ''['' @ py_join '', '' (map (\<lambda>(k, v). ''('' @ k @ '', '' @ v @ '')'') (sort_key fst ctx)) @ '']''"

definition example_library :: py_library where
  "example_library =
     \<lparr>fnmatch = glob_match, sha256_hexdigest = (\<lambda>data. data), str_sorted_items = example_render\<rparr>"

definition admin_guarded_breaker :: "string \<Rightarrow> CircuitBreaker" where
  "admin_guarded_breaker strategy =
     default_breaker\<lparr>fallback := Strategy strategy, no_stale_for := Some [''*.admin.*'']\<rparr>"

section \<open>Decision cache (dependencies.py)\<close>

text \<open>
  The slice \<open>xs[:n]\<close> of Python: a negative \<open>n\<close> counts from the end.
\<close>

definition py_slice_to :: "int \<Rightarrow> 'a list \<Rightarrow> 'a list" where
  "py_slice_to n xs =
     (if 0 \<le> n then take (nat n) xs else take (length xs - nat (- n)) xs)"

record CacheEntry =
  entry_value :: bool
  expires_at :: real

text \<open>
  \<open>_cache\<close> is a Python dict: an association list in insertion order with distinct
  keys. \<open>map_of\<close> is the lookup, \<open>AList.update\<close> the assignment (a present key keeps
  its place, a new key goes to the end), \<open>AList.delete\<close> is \<open>del\<close>.
\<close>

record DecisionCache =
  ttl_seconds :: real
  max_size :: int
  cache :: "(string \<times> CacheEntry) list"

definition ctx_str :: "py_library \<Rightarrow> resource_context option \<Rightarrow> string" where
  "ctx_str lib resource_context =
     (case resource_context of
        None \<Rightarrow> []
      | Some ctx \<Rightarrow> if ctx = [] then [] else str_sorted_items lib ctx)"

definition key_data :: "py_library \<Rightarrow> string \<Rightarrow> string \<Rightarrow> string \<Rightarrow> resource_context option \<Rightarrow> string" where
  "key_data lib identity_value policy_path decision resource_context =
     identity_value @ '':'' @ policy_path @ '':'' @ decision @ '':'' @ ctx_str lib resource_context"

definition make_key :: "py_library \<Rightarrow> string \<Rightarrow> string \<Rightarrow> string \<Rightarrow> resource_context option \<Rightarrow> string" where
  "make_key lib identity_value policy_path decision resource_context =
     take 32 (sha256_hexdigest lib (key_data lib identity_value policy_path decision resource_context))"

definition cache_get ::
  "py_library \<Rightarrow> DecisionCache \<Rightarrow> string \<Rightarrow> string \<Rightarrow> string \<Rightarrow> resource_context option \<Rightarrow> real
     \<Rightarrow> bool option \<times> DecisionCache" where
  "cache_get lib dc identity_value policy_path decision resource_context now =
     (let key = make_key lib identity_value policy_path decision resource_context in
      case map_of (cache dc) key of
        None \<Rightarrow> (None, dc)
      | Some entry \<Rightarrow>
          if now > expires_at entry
          then (None, dc\<lparr>cache := AList.delete key (cache dc)\<rparr>)
          else (Some (entry_value entry), dc))"

text \<open>
  \<open>set\<close> reads the clock once for the eviction (\<open>now\<close>) when the table is full and
  once for the new entry (\<open>now_insert\<close>).
\<close>

definition evict :: "DecisionCache \<Rightarrow> real \<Rightarrow> (string \<times> CacheEntry) list" where
  "evict dc now =
     (if int (length (cache dc)) \<ge> max_size dc then
        let expired = map fst (filter (\<lambda>(k, v). expires_at v < now) (cache dc));
            c1 = fold AList.delete expired (cache dc)
        in if int (length c1) \<ge> max_size dc then
             let to_remove = py_slice_to (max_size dc div 10) (map fst c1)
             in fold AList.delete to_remove c1
           else c1
      else cache dc)"

definition cache_set ::
  "py_library \<Rightarrow> DecisionCache \<Rightarrow> string \<Rightarrow> string \<Rightarrow> string \<Rightarrow> resource_context option \<Rightarrow> bool
     \<Rightarrow> real \<Rightarrow> real \<Rightarrow> DecisionCache" where
  "cache_set lib dc identity_value policy_path decision resource_context v now now_insert =
     (let key = make_key lib identity_value policy_path decision resource_context in
      dc\<lparr>cache := AList.update key
                     \<lparr>entry_value = v, expires_at = now_insert + ttl_seconds dc\<rparr>
                     (evict dc now)\<rparr>)"

definition cache_clear :: "DecisionCache \<Rightarrow> DecisionCache" where
  "cache_clear dc = dc\<lparr>cache := []\<rparr>"

text \<open>A cache as the dataclass constructs it, and a run of \<open>set\<close> for a list of users.\<close>

definition new_cache :: "real \<Rightarrow> int \<Rightarrow> DecisionCache" where
  "new_cache ttl capacity = \<lparr>ttl_seconds = ttl, max_size = capacity, cache = []\<rparr>"

definition set_for_users :: "string list \<Rightarrow> DecisionCache \<Rightarrow> DecisionCache" where
  "set_for_users users dc =
     fold (\<lambda>user dc. cache_set example_library dc user ''myapp.GET.documents'' ''allowed'' None True 0 0)
       users dc"

section \<open>Connection pool (connection\_pool.py)\<close>

text \<open>
  A \<open>PooledConnection\<close> is an object: the pool and the caller that acquired it share
  it, and the caller may set \<open>healthy\<close> at any time. The model keeps the objects in a
  store (\<open>objects\<close>, from object identities to their fields); \<open>next_id\<close> is the
  identity of the next object (\<open>id(self)\<close>, unique among the live objects). The
  client itself is opaque. Within one operation of the pool all clock readings are one
  value \<open>now\<close>; only the idle sweep compares them.
\<close>

record PooledConnection =
  created_at :: real
  last_used_at :: real
  healthy :: bool

text \<open>
  The dataclass \<open>ConnectionPool\<close>. \<open>semaphore\<close> is the value of the
  \<open>asyncio.Semaphore\<close> (the free permits), \<open>None\<close> before it is made; \<open>idle\<close> is
  the queue, first in first out; \<open>cleanup_task\<close> says whether the sweep task is
  started. \<open>objects\<close>, \<open>next_id\<close> and \<open>client_calls\<close> (the number of
  \<open>AuthorizerClient(...)\<close> constructions so far) are not fields of the source.
\<close>

record ConnectionPool =
  min_connections :: int
  max_connections :: int
  acquire_timeout :: real
  connection_timeout :: real
  max_idle_time :: real
  idle_check_interval :: real
  health_check_interval :: real
  health_check_timeout :: real
  eager_init :: bool
  retry_on_failure :: bool
  max_retries :: int
  authorizer_options :: "string option"
  idle :: "nat list"
  semaphore :: "int option"
  connections :: "nat set"
  busy :: "nat set"
  initialized :: bool
  closed :: bool
  cleanup_task :: bool
  objects :: "nat \<Rightarrow> PooledConnection option"
  next_id :: nat
  client_calls :: nat

text \<open>
  \<open>new_client k\<close> is the outcome of the \<open>k\<close>-th construction of an
  \<open>AuthorizerClient\<close>: \<open>None\<close> when it returns, the exception when it raises.
\<close>

type_synonym client_factory = "nat \<Rightarrow> py_exception option"

definition configure :: "ConnectionPool \<Rightarrow> string \<Rightarrow> py_exception + ConnectionPool" where
  "configure pool options =
     (if max_connections pool < 0 then Inl (PyException ValueError ''Semaphore initial value must be >= 0'')
      else Inr (pool\<lparr>authorizer_options := Some options, semaphore := Some (max_connections pool)\<rparr>))"

definition mark_used :: "ConnectionPool \<Rightarrow> nat \<Rightarrow> real \<Rightarrow> ConnectionPool" where
  "mark_used pool conn now =
     (case objects pool conn of
        None \<Rightarrow> pool
      | Some obj \<Rightarrow> pool\<lparr>objects := (objects pool)(conn \<mapsto> obj\<lparr>last_used_at := now\<rparr>)\<rparr>)"

definition create_connection ::
  "client_factory \<Rightarrow> ConnectionPool \<Rightarrow> real \<Rightarrow> (py_exception + nat) \<times> ConnectionPool" where
  "create_connection new_client pool now =
     (if authorizer_options pool = None
      then (Inl (PyException RuntimeError ''ConnectionPool not configured with authorizer_options''), pool)
      else
        let pool1 = pool\<lparr>client_calls := client_calls pool + 1\<rparr> in
        case new_client (client_calls pool) of
          Some e \<Rightarrow> (Inl e, pool1)
        | None \<Rightarrow>
            let conn = next_id pool1 in
            (Inr conn,
             pool1\<lparr>objects := (objects pool1)
                      (conn \<mapsto> \<lparr>created_at = now, last_used_at = now, healthy = True\<rparr>),
                    next_id := conn + 1,
                    connections := insert conn (connections pool1)\<rparr>))"

text \<open>
  The loop of \<open>initialize\<close> over \<open>range(min_connections)\<close>: a connection that cannot
  be created is skipped with a warning.
\<close>

fun eager_loop :: "client_factory \<Rightarrow> real \<Rightarrow> nat \<Rightarrow> ConnectionPool \<Rightarrow> ConnectionPool" where
  "eager_loop new_client now 0 pool = pool"
| "eager_loop new_client now (Suc n) pool =
     (case create_connection new_client pool now of
        (Inl e, pool1) \<Rightarrow> eager_loop new_client now n pool1
      | (Inr conn, pool1) \<Rightarrow> eager_loop new_client now n (pool1\<lparr>idle := idle pool1 @ [conn]\<rparr>))"

definition initialize :: "client_factory \<Rightarrow> ConnectionPool \<Rightarrow> real \<Rightarrow> py_exception + ConnectionPool" where
  "initialize new_client pool now =
     (if initialized pool then Inr pool
      else if semaphore pool = None \<and> max_connections pool < 0
      then Inl (PyException ValueError ''Semaphore initial value must be >= 0'')
      else
        let pool1 = (if semaphore pool = None
                     then pool\<lparr>semaphore := Some (max_connections pool)\<rparr> else pool);
            pool2 = (if eager_init pool1 \<and> authorizer_options pool1 \<noteq> None
                     then eager_loop new_client now (nat (min_connections pool1)) pool1
                     else pool1);
            pool3 = (if idle_check_interval pool2 > 0 then pool2\<lparr>cleanup_task := True\<rparr> else pool2)
        in Inr (pool3\<lparr>initialized := True\<rparr>))"

text \<open>
  \<open>acquire\<close>. Waiting for the semaphore is not modelled as waiting: with no free permit
  and no release in the meantime the wait ends in \<open>TimeoutError\<close>.
\<close>

definition acquire :: "client_factory \<Rightarrow> ConnectionPool \<Rightarrow> real \<Rightarrow> (py_exception + nat) \<times> ConnectionPool" where
  "acquire new_client pool now =
     (if closed pool then (Inl (PyException RuntimeError ''Connection pool is closed''), pool)
      else
        case (if \<not> initialized pool then initialize new_client pool now else Inr pool) of
          Inl e \<Rightarrow> (Inl e, pool)
        | Inr pool1 \<Rightarrow>
            (case semaphore pool1 of
               None \<Rightarrow> (Inl (PyException Exception ''AssertionError''), pool1)
             | Some permits \<Rightarrow>
                 (if permits \<le> 0 then (Inl (PyException TimeoutError ''timeout''), pool1)
                  else
                    (let pool2 = pool1\<lparr>semaphore := Some (permits - 1)\<rparr> in
                     (case idle pool2 of
                        conn # rest \<Rightarrow>
                          (let pool3 = mark_used (pool2\<lparr>idle := rest\<rparr>) conn now
                           in (Inr conn, pool3\<lparr>busy := insert conn (busy pool3)\<rparr>))
                      | [] \<Rightarrow>
                          (case create_connection new_client pool2 now of
                             (Inr conn, pool3) \<Rightarrow>
                               (let pool4 = mark_used pool3 conn now
                                in (Inr conn, pool4\<lparr>busy := insert conn (busy pool4)\<rparr>))
                           | (Inl e, pool3) \<Rightarrow>
                               (Inl e, pool3\<lparr>semaphore := Some (permits - 1 + 1)\<rparr>)))))))"

definition is_healthy :: "ConnectionPool \<Rightarrow> nat \<Rightarrow> bool" where
  "is_healthy pool conn = (case objects pool conn of None \<Rightarrow> False | Some obj \<Rightarrow> healthy obj)"

definition release :: "ConnectionPool \<Rightarrow> nat \<Rightarrow> real \<Rightarrow> ConnectionPool" where
  "release pool conn now =
     (if conn \<notin> busy pool then pool
      else
        let pool1 = pool\<lparr>busy := busy pool - {conn}\<rparr>;
            pool2 = (if is_healthy pool1 conn \<and> \<not> closed pool1
                     then (let pool' = mark_used pool1 conn now in pool'\<lparr>idle := idle pool' @ [conn]\<rparr>)
                     else pool1\<lparr>connections := connections pool1 - {conn}\<rparr>)
        in (case semaphore pool2 of
              None \<Rightarrow> pool2
            | Some permits \<Rightarrow> pool2\<lparr>semaphore := Some (permits + 1)\<rparr>))"

text \<open>
  \<open>_cleanup_idle_connections\<close>: the loop empties the queue into \<open>to_close\<close> and
  \<open>temp_idle\<close>; the connections kept go back in order, the others leave
  \<open>_connections\<close>.
\<close>

fun cleanup_loop :: "ConnectionPool \<Rightarrow> real \<Rightarrow> nat list \<Rightarrow> nat list \<Rightarrow> nat list \<Rightarrow> nat list \<times> nat list" where
  "cleanup_loop pool now [] to_close temp_idle = (to_close, temp_idle)"
| "cleanup_loop pool now (conn # queue) to_close temp_idle =
     (let idle_time = (case objects pool conn of None \<Rightarrow> 0 | Some obj \<Rightarrow> now - last_used_at obj) in
      if idle_time > max_idle_time pool then
        (if int (card (connections pool)) - int (length to_close) > min_connections pool
         then cleanup_loop pool now queue (to_close @ [conn]) temp_idle
         else cleanup_loop pool now queue to_close (temp_idle @ [conn]))
      else cleanup_loop pool now queue to_close (temp_idle @ [conn]))"

definition cleanup_idle_connections :: "ConnectionPool \<Rightarrow> real \<Rightarrow> ConnectionPool" where
  "cleanup_idle_connections pool now =
     (case cleanup_loop pool now (idle pool) [] [] of
        (to_close, temp_idle) \<Rightarrow>
          pool\<lparr>idle := temp_idle, connections := connections pool - set to_close\<rparr>)"

definition close :: "ConnectionPool \<Rightarrow> ConnectionPool" where
  "close pool = pool\<lparr>closed := True, cleanup_task := False, idle := [], connections := {}, busy := {}\<rparr>"

text \<open>A caller sets \<open>conn.healthy\<close>.\<close>

definition set_healthy :: "ConnectionPool \<Rightarrow> nat \<Rightarrow> bool \<Rightarrow> ConnectionPool" where
  "set_healthy pool conn h =
     (case objects pool conn of
        None \<Rightarrow> pool
      | Some obj \<Rightarrow> pool\<lparr>objects := (objects pool)(conn \<mapsto> obj\<lparr>healthy := h\<rparr>)\<rparr>)"

text \<open>
  Runs of the pool: \<open>acquire\<close>, \<open>release\<close> and \<open>close\<close>, the caller's writes to
  \<open>healthy\<close>, and the idle sweep, each with its clock reading. The result of a step is
  what \<open>acquire\<close> returned or raised.
\<close>

datatype pool_op = Acquire real | Release nat real | Close | SetHealthy nat bool | IdleSweep real

fun pool_step :: "client_factory \<Rightarrow> ConnectionPool \<Rightarrow> pool_op \<Rightarrow> (py_exception + nat) option \<times> ConnectionPool" where
  "pool_step new_client pool (Acquire now) =
     (Some (fst (acquire new_client pool now)), snd (acquire new_client pool now))"
| "pool_step new_client pool (Release conn now) = (None, release pool conn now)"
| "pool_step new_client pool Close = (None, close pool)"
| "pool_step new_client pool (SetHealthy conn h) = (None, set_healthy pool conn h)"
| "pool_step new_client pool (IdleSweep now) = (None, cleanup_idle_connections pool now)"

fun pool_run :: "client_factory \<Rightarrow> ConnectionPool \<Rightarrow> pool_op list \<Rightarrow> ConnectionPool" where
  "pool_run new_client pool [] = pool"
| "pool_run new_client pool (operation # ops) =
     pool_run new_client (snd (pool_step new_client pool operation)) ops"

fun pool_results :: "client_factory \<Rightarrow> ConnectionPool \<Rightarrow> pool_op list \<Rightarrow> (py_exception + nat) option list" where
  "pool_results new_client pool [] = []"
| "pool_results new_client pool (operation # ops) =
     fst (pool_step new_client pool operation) #
     pool_results new_client (snd (pool_step new_client pool operation)) ops"

text \<open>
  A pool as the dataclass constructs it and \<open>configure\<close> leaves it, with a sane size:
  no negative maximum, and no more connections to warm up than the maximum.
\<close>

definition configured_pool :: "ConnectionPool \<Rightarrow> bool" where
  "configured_pool pool \<longleftrightarrow>
     idle pool = [] \<and> connections pool = {} \<and> busy pool = {} \<and>
     \<not> initialized pool \<and> \<not> closed pool \<and> \<not> cleanup_task pool \<and>
     semaphore pool = Some (max_connections pool) \<and> authorizer_options pool \<noteq> None \<and>
     0 \<le> max_connections pool \<and> (eager_init pool \<longrightarrow> min_connections pool \<le> max_connections pool)"

text \<open>
  What every run of the pool keeps true. The queue and the busy set are disjoint and
  make up the live connections, every live connection is an object already allocated,
  the busy connections and the free permits fit the maximum, and so do the idle and the
  busy connections together.
\<close>

definition pool_wf :: "ConnectionPool \<Rightarrow> bool" where
  "pool_wf pool \<longleftrightarrow>
     finite (busy pool) \<and> distinct (idle pool) \<and> set (idle pool) \<inter> busy pool = {} \<and>
     connections pool = set (idle pool) \<union> busy pool \<and>
     (\<forall>conn \<in> connections pool. conn < next_id pool)"

definition pool_inv :: "ConnectionPool \<Rightarrow> bool" where
  "pool_inv pool \<longleftrightarrow>
     pool_wf pool \<and>
     (\<exists>permits. semaphore pool = Some permits \<and> 0 \<le> permits \<and>
        int (card (busy pool)) + permits \<le> max_connections pool) \<and>
     int (length (idle pool)) + int (card (busy pool)) \<le> max_connections pool \<and>
     (\<not> initialized pool \<longrightarrow>
        idle pool = [] \<and> busy pool = {} \<and>
        (eager_init pool \<longrightarrow> min_connections pool \<le> max_connections pool))"

text \<open>
  From \<open>pool\<close> to \<open>pool'\<close> the live connections gained only newly allocated
  objects.
\<close>

definition only_fresh :: "ConnectionPool \<Rightarrow> ConnectionPool \<Rightarrow> bool" where
  "only_fresh pool pool' \<longleftrightarrow>
     next_id pool \<le> next_id pool' \<and>
     (\<forall>conn \<in> connections pool'. conn \<in> connections pool \<or> next_id pool \<le> conn)"

definition pool_closed_error :: py_exception where
  "pool_closed_error = PyException RuntimeError ''Connection pool is closed''"

text \<open>A configured pool with the defaults of the dataclass, and a client constructor that never fails.\<close>

definition example_pool :: ConnectionPool where
  "example_pool =
     \<lparr>min_connections = 2, max_connections = 10, acquire_timeout = 5, connection_timeout = 10,
      max_idle_time = 300, idle_check_interval = 60, health_check_interval = 30,
      health_check_timeout = 5, eager_init = False, retry_on_failure = True, max_retries = 3,
      authorizer_options = Some ''localhost:8282'', idle = [], semaphore = Some 10,
      connections = {}, busy = {}, initialized = False, closed = False, cleanup_task = False,
      objects = (\<lambda>conn. None), next_id = 0, client_calls = 0\<rparr>"

definition always_connects :: client_factory where
  "always_connects k = None"

section \<open>Properties of the policy-path resolver\<close>

lemma heuristic_loop_eq:
  "heuristic_loop segments acc =
     acc @ map spec_emit_segment (filter (\<lambda>segment. segment \<noteq> []) segments)"
  by (induction segments arbitrary: acc) (simp_all add: spec_emit_segment_def)

lemma spec_emit_segment_nonempty: "segment \<noteq> [] \<Longrightarrow> spec_emit_segment segment \<noteq> []"
  by (simp add: spec_emit_segment_def)

lemma py_join_empty_iff:
  "\<forall>p \<in> set parts. p \<noteq> [] \<Longrightarrow> py_join sep parts = [] \<longleftrightarrow> parts = []"
  by (induction sep parts rule: py_join.induct) simp_all

lemma emitted_parts_nonempty:
  "\<forall>p \<in> set (map spec_emit_segment (filter (\<lambda>segment. segment \<noteq> []) segments)). p \<noteq> []"
  by (auto simp: spec_emit_segment_nonempty)

lemma policy_path_heuristic_root: "policy_path_heuristic [] = []" "policy_path_heuristic ''/'' = []"
  by (simp_all add: policy_path_heuristic_def)

lemma policy_path_heuristic_eq:
  "policy_path_heuristic path =
     (let joined = py_join ''.'' (map spec_emit_segment
                     (filter (\<lambda>segment. segment \<noteq> [])
                        (py_split (CHR ''/'') (py_strip (CHR ''/'') path))))
      in if joined = [] then [] else ''.'' @ joined)"
proof (cases "path = [] \<or> path = ''/''")
  case True
  then show ?thesis
    by (auto simp: policy_path_heuristic_def py_strip_def)
next
  case False
  then show ?thesis
    using py_join_empty_iff [OF emitted_parts_nonempty]
    by (simp add: policy_path_heuristic_def heuristic_loop_eq Let_def)
qed

text \<open>
  C5 (as stated): the resolver is the strip / split / emit / join pipeline of the
  specification. It is not: on a pattern with two slashes in a row the code skips the
  empty segment, the pipeline keeps it and joins it.
\<close>

theorem resolve_policy_path_double_slash_counterexample:
  "resolve_policy_path ''myapp'' ''GET'' ''/a//b'' = ''myapp.GET.a.b'' \<and>
   spec_resolve_policy_path ''myapp'' ''GET'' ''/a//b'' = ''myapp.GET.a..b'' \<and>
   resolve_policy_path ''myapp'' ''GET'' ''/a//b'' \<noteq> spec_resolve_policy_path ''myapp'' ''GET'' ''/a//b''"
  by (simp add: resolve_policy_path_def spec_resolve_policy_path_def policy_path_heuristic_def
      py_strip_def spec_emit_segment_def py_endswith_char_def py_slice_1_m1_def)

text \<open>
  C5 (amended): \<open>resolve_policy_path\<close> strips the slashes, splits on \<open>/\<close>, drops the
  empty segments, emits \<open>__name\<close> for each placeholder \<open>{name}\<close> and every other
  segment unchanged, joins with \<open>.\<close>, prefixes one \<open>.\<close> when the join is not empty and
  returns \<open>root.method\<close> followed by that suffix; the root path (\<open>/\<close> or empty) gives
  exactly \<open>root.method\<close>, and the two examples of the specification hold.
\<close>

theorem resolve_policy_path_refines_spec:
  "resolve_policy_path policy_root method pattern = spec_resolve_policy_path_nonempty policy_root method pattern \<and>
   resolve_policy_path policy_root method ''/'' = policy_root @ ''.'' @ method \<and>
   resolve_policy_path policy_root method [] = policy_root @ ''.'' @ method \<and>
   resolve_policy_path ''myapp'' ''GET'' ''/documents/{id}'' = ''myapp.GET.documents.__id'' \<and>
   resolve_policy_path ''myapp'' ''GET'' ''/'' = ''myapp.GET''"
proof -
  have "resolve_policy_path policy_root method pattern = spec_resolve_policy_path_nonempty policy_root method pattern"
    by (simp add: resolve_policy_path_def spec_resolve_policy_path_nonempty_def
        policy_path_heuristic_eq Let_def)
  moreover have "resolve_policy_path ''myapp'' ''GET'' ''/documents/{id}'' = ''myapp.GET.documents.__id''"
    by (simp add: resolve_policy_path_def policy_path_heuristic_def py_strip_def
        py_endswith_char_def py_slice_1_m1_def)
  ultimately show ?thesis
    by (simp add: resolve_policy_path_def policy_path_heuristic_root)
qed

section \<open>Properties of the circuit breaker\<close>

lemma no_stale_loop_eq:
  "no_stale_loop match policy_path patterns cached =
     (if \<exists>pattern \<in> set patterns. match policy_path pattern then None else cached)"
  by (induction patterns) auto

lemma fallback_stale_filter:
  "(case no_stale_for cb of
               Some (pattern # patterns) \<Rightarrow>
                 (if cached \<noteq> None
                  then no_stale_loop (fnmatch lib) policy_path (pattern # patterns) cached
                  else cached)
             | _ \<Rightarrow> cached) = spec_stale_value lib cb policy_path cached"
  by (auto simp: spec_stale_value_def configured_patterns_def no_stale_loop_eq split: option.splits list.splits)

lemma transition_to_config [simp]:
  "failure_threshold (transition_to cb s r t) = failure_threshold cb"
  "success_threshold (transition_to cb s r t) = success_threshold cb"
  "recovery_timeout (transition_to cb s r t) = recovery_timeout cb"
  "half_open_max_requests (transition_to cb s r t) = half_open_max_requests cb"
  by (simp_all add: transition_to_def Let_def split: option.splits)

lemma transition_to_state [simp]: "state (transition_to cb s r t) = s"
  by (simp add: transition_to_def Let_def split: option.splits)

lemma transition_to_OPEN [simp]:
  "state cb \<noteq> OPEN \<Longrightarrow> open_since (transition_to cb OPEN r t) = Some t"
  "success_count (transition_to cb OPEN r t) = success_count cb"
  by (simp_all add: transition_to_def Let_def split: option.splits)

lemma transition_to_CLOSED [simp]:
  "state cb \<noteq> CLOSED \<Longrightarrow> failure_count (transition_to cb CLOSED r t) = 0"
  "state cb \<noteq> CLOSED \<Longrightarrow> success_count (transition_to cb CLOSED r t) = 0"
  by (simp_all add: transition_to_def Let_def split: option.splits)

lemma transition_to_HALF_OPEN [simp]:
  "success_count (transition_to cb HALF_OPEN r t) = success_count cb"
  by (simp_all add: transition_to_def Let_def split: option.splits)

lemma record_success_config [simp]:
  "failure_threshold (record_success cb now) = failure_threshold cb"
  "success_threshold (record_success cb now) = success_threshold cb"
  "recovery_timeout (record_success cb now) = recovery_timeout cb"
  "half_open_max_requests (record_success cb now) = half_open_max_requests cb"
  by (simp_all add: record_success_def Let_def)

lemma record_failure_config [simp]:
  "failure_threshold (record_failure cb e now now') = failure_threshold cb"
  "success_threshold (record_failure cb e now now') = success_threshold cb"
  "recovery_timeout (record_failure cb e now now') = recovery_timeout cb"
  "half_open_max_requests (record_failure cb e now now') = half_open_max_requests cb"
  by (simp_all add: record_failure_def Let_def)

lemma should_allow_request_config [simp]:
  "failure_threshold (snd (should_allow_request cb now)) = failure_threshold cb"
  "success_threshold (snd (should_allow_request cb now)) = success_threshold cb"
  "recovery_timeout (snd (should_allow_request cb now)) = recovery_timeout cb"
  "half_open_max_requests (snd (should_allow_request cb now)) = half_open_max_requests cb"
  by (simp_all add: should_allow_request_def Let_def split: option.splits)

lemma cb_step_config [simp]:
  "failure_threshold (snd (cb_step cb operation)) = failure_threshold cb"
  "success_threshold (snd (cb_step cb operation)) = success_threshold cb"
  "recovery_timeout (snd (cb_step cb operation)) = recovery_timeout cb"
  "half_open_max_requests (snd (cb_step cb operation)) = half_open_max_requests cb"
  by (cases operation; simp)+

lemma cb_run_config [simp]:
  "failure_threshold (cb_run cb ops) = failure_threshold cb"
  "success_threshold (cb_run cb ops) = success_threshold cb"
  "recovery_timeout (cb_run cb ops) = recovery_timeout cb"
  "half_open_max_requests (cb_run cb ops) = half_open_max_requests cb"
  by (induction ops arbitrary: cb) simp_all

lemma cb_run_append: "cb_run cb (xs @ ys) = cb_run (cb_run cb xs) ys"
  by (induction xs arbitrary: cb) simp_all

text \<open>CLOSED: failures below the threshold keep the circuit closed and count.\<close>

lemma record_failure_closed_below:
  "state cb = CLOSED \<Longrightarrow> failure_count cb + 1 < failure_threshold cb \<Longrightarrow>
   state (record_failure cb e now now') = CLOSED \<and>
   failure_count (record_failure cb e now now') = failure_count cb + 1"
  by (simp add: record_failure_def Let_def)

lemma record_failure_closed_reach:
  "state cb = CLOSED \<Longrightarrow> failure_count cb + 1 \<ge> failure_threshold cb \<Longrightarrow>
   state (record_failure cb e now now') = OPEN \<and>
   open_since (record_failure cb e now now') = Some now'"
  by (simp add: record_failure_def Let_def)

lemma closed_failures_below:
  "state cb = CLOSED \<Longrightarrow> \<forall>operation \<in> set ops. is_record_failure operation \<Longrightarrow>
   failure_count cb + int (length ops) < failure_threshold cb \<Longrightarrow>
   state (cb_run cb ops) = CLOSED \<and>
   failure_count (cb_run cb ops) = failure_count cb + int (length ops)"
proof (induction ops arbitrary: cb)
  case Nil
  then show ?case by simp
next
  case (Cons operation ops)
  from Cons.prems(2) obtain e now now' where op: "operation = RecordFailure e now now'"
    by (cases operation) (auto simp: is_record_failure_def)
  let ?cb = "record_failure cb e now now'"
  from Cons.prems have step: "state ?cb = CLOSED" "failure_count ?cb = failure_count cb + 1"
    using record_failure_closed_below [of cb e now now'] by auto
  with Cons.prems have "state (cb_run ?cb ops) = CLOSED \<and>
      failure_count (cb_run ?cb ops) = failure_count ?cb + int (length ops)"
    by (intro Cons.IH) auto
  with step op show ?case by simp
qed

lemma closed_failures_reach:
  assumes "state cb = CLOSED" "\<forall>operation \<in> set ops. is_record_failure operation"
    and "failure_count cb + int (length ops) = failure_threshold cb" "ops \<noteq> []"
  shows "state (cb_run cb ops) = OPEN"
proof -
  from assms(4) obtain ops' operation where ops: "ops = ops' @ [operation]"
    by (metis rev_exhaust)
  with assms(2) obtain e now now' where op: "operation = RecordFailure e now now'"
    by (cases operation) (auto simp: is_record_failure_def)
  from assms ops have "state (cb_run cb ops') = CLOSED \<and>
      failure_count (cb_run cb ops') = failure_count cb + int (length ops')"
    by (intro closed_failures_below) auto
  with assms(3) ops op show ?thesis
    using record_failure_closed_reach [of "cb_run cb ops'" e now now']
    by (simp add: cb_run_append)
qed

text \<open>HALF_OPEN: successes.\<close>

lemma record_success_half_open_below:
  "state cb = HALF_OPEN \<Longrightarrow> success_count cb + 1 < success_threshold cb \<Longrightarrow>
   state (record_success cb now) = HALF_OPEN \<and>
   success_count (record_success cb now) = success_count cb + 1"
  by (simp add: record_success_def Let_def)

lemma record_success_half_open_reach:
  "state cb = HALF_OPEN \<Longrightarrow> success_count cb + 1 \<ge> success_threshold cb \<Longrightarrow>
   state (record_success cb now) = CLOSED"
  by (simp add: record_success_def Let_def)

lemma half_open_successes_below:
  "state cb = HALF_OPEN \<Longrightarrow> \<forall>operation \<in> set ops. is_record_success operation \<Longrightarrow>
   success_count cb + int (length ops) < success_threshold cb \<Longrightarrow>
   state (cb_run cb ops) = HALF_OPEN \<and>
   success_count (cb_run cb ops) = success_count cb + int (length ops)"
proof (induction ops arbitrary: cb)
  case Nil
  then show ?case by simp
next
  case (Cons operation ops)
  from Cons.prems(2) obtain now where op: "operation = RecordSuccess now"
    by (cases operation) (auto simp: is_record_success_def)
  let ?cb = "record_success cb now"
  from Cons.prems have step: "state ?cb = HALF_OPEN" "success_count ?cb = success_count cb + 1"
    using record_success_half_open_below [of cb now] by auto
  with Cons.prems have "state (cb_run ?cb ops) = HALF_OPEN \<and>
      success_count (cb_run ?cb ops) = success_count ?cb + int (length ops)"
    by (intro Cons.IH) auto
  with step op show ?case by simp
qed

lemma half_open_successes_reach:
  assumes "state cb = HALF_OPEN" "\<forall>operation \<in> set ops. is_record_success operation"
    and "success_count cb + int (length ops) = success_threshold cb" "ops \<noteq> []"
  shows "state (cb_run cb ops) = CLOSED"
proof -
  from assms(4) obtain ops' operation where ops: "ops = ops' @ [operation]"
    by (metis rev_exhaust)
  with assms(2) obtain now where op: "operation = RecordSuccess now"
    by (cases operation) (auto simp: is_record_success_def)
  from assms ops have "state (cb_run cb ops') = HALF_OPEN \<and>
      success_count (cb_run cb ops') = success_count cb + int (length ops')"
    by (intro half_open_successes_below) auto
  with assms(3) ops op show ?thesis
    using record_success_half_open_reach [of "cb_run cb ops'" now]
    by (simp add: cb_run_append)
qed

lemma record_failure_half_open:
  "state cb = HALF_OPEN \<Longrightarrow> state (record_failure cb e now now') = OPEN \<and>
     open_since (record_failure cb e now now') = Some now'"
  by (simp add: record_failure_def Let_def)

lemma record_success_resets_streak: "failure_count (record_success cb now) = 0"
  by (simp add: record_success_def Let_def transition_to_def split: option.splits)

lemma record_success_closed: "state cb = CLOSED \<Longrightarrow> state (record_success cb now) = CLOSED"
  by (simp add: record_success_def Let_def)

text \<open>OPEN.\<close>

lemma should_allow_request_open_early:
  "state cb = OPEN \<Longrightarrow> open_since cb = Some since \<Longrightarrow> now - since < recovery_timeout cb \<Longrightarrow>
   should_allow_request cb now = (False, cb)"
  by (simp add: should_allow_request_def Let_def)

lemma should_allow_request_open_elapsed:
  "state cb = OPEN \<Longrightarrow> open_since cb = Some since \<Longrightarrow> now - since \<ge> recovery_timeout cb \<Longrightarrow>
   fst (should_allow_request cb now) \<and>
   state (snd (should_allow_request cb now)) = HALF_OPEN \<and>
   half_open_requests (snd (should_allow_request cb now)) = 1 \<and>
   success_count (snd (should_allow_request cb now)) = success_count cb"
  by (simp add: should_allow_request_def Let_def)

lemma should_allow_request_closed: "state cb = CLOSED \<Longrightarrow> should_allow_request cb now = (True, cb)"
  by (simp add: should_allow_request_def)

text \<open>Admissions while half-open.\<close>

lemma half_open_admissions_bound:
  "state cb = HALF_OPEN \<Longrightarrow>
   int (half_open_admissions cb ops) \<le> max 0 (half_open_max_requests cb - half_open_requests cb)"
proof (induction ops arbitrary: cb)
  case Nil
  then show ?case by simp
next
  case (Cons operation ops)
  show ?case
  proof (cases operation)
    case (RecordSuccess now)
    let ?cb = "record_success cb now"
    show ?thesis
    proof (cases "state ?cb = HALF_OPEN")
      case True
      then have "half_open_requests ?cb = half_open_requests cb"
        using Cons.prems by (auto simp: record_success_def Let_def split: if_splits)
      with Cons.IH [OF True] Cons.prems RecordSuccess show ?thesis by simp
    next
      case False
      then have "half_open_admissions ?cb ops = 0" by (cases ops) simp_all
      with Cons.prems RecordSuccess show ?thesis by simp
    qed
  next
    case (RecordFailure e now now')
    let ?cb = "record_failure cb e now now'"
    have "state ?cb = OPEN" using Cons.prems record_failure_half_open by simp
    then have "half_open_admissions ?cb ops = 0" by (cases ops) simp_all
    with Cons.prems RecordFailure show ?thesis by simp
  next
    case (ShouldAllowRequest now)
    show ?thesis
    proof (cases "half_open_requests cb < half_open_max_requests cb")
      case True
      let ?cb = "cb\<lparr>half_open_requests := half_open_requests cb + 1\<rparr>"
      have sar: "should_allow_request cb now = (True, ?cb)"
        using Cons.prems True by (simp add: should_allow_request_def)
      have "int (half_open_admissions ?cb ops)
              \<le> max 0 (half_open_max_requests ?cb - half_open_requests ?cb)"
        using Cons.prems by (intro Cons.IH) simp
      with Cons.prems ShouldAllowRequest sar True show ?thesis by simp
    next
      case False
      have sar: "should_allow_request cb now = (False, cb)"
        using Cons.prems False by (simp add: should_allow_request_def)
      with Cons.IH [OF Cons.prems] Cons.prems ShouldAllowRequest show ?thesis by simp
    qed
  qed
qed

text \<open>Invariant of runs.\<close>

lemma cb_inv_record_success: "cb_inv cb \<Longrightarrow> cb_inv (record_success cb now)"
  by (auto simp: cb_inv_def record_success_def Let_def transition_to_def split: option.splits)

lemma cb_inv_record_failure: "cb_inv cb \<Longrightarrow> cb_inv (record_failure cb e now now')"
  by (auto simp: cb_inv_def record_failure_def Let_def transition_to_def split: option.splits)

lemma cb_inv_should_allow_request: "cb_inv cb \<Longrightarrow> cb_inv (snd (should_allow_request cb now))"
  by (auto simp: cb_inv_def should_allow_request_def Let_def transition_to_def split: option.splits)

lemma cb_inv_step: "cb_inv cb \<Longrightarrow> cb_inv (snd (cb_step cb operation))"
  by (cases operation)
     (simp_all add: cb_inv_record_success cb_inv_record_failure cb_inv_should_allow_request)

lemma cb_inv_run: "cb_inv cb \<Longrightarrow> cb_inv (cb_run cb ops)"
  by (induction ops arbitrary: cb) (simp_all add: cb_inv_step)

lemma cb_inv_initial: "initial_breaker cb \<Longrightarrow> cb_inv cb"
  by (simp add: initial_breaker_def cb_inv_def)


text \<open>
  C2: the breaker's state machine. For a breaker \<open>cb\<close> reached by any run from a
  freshly constructed one, with thresholds of at least one:
  from \<open>CLOSED\<close> with an empty failure streak, fewer than \<open>failure_threshold\<close>
  consecutive failures leave it closed and exactly \<open>failure_threshold\<close> open it;
  a success resets the failure streak to zero (and a closed circuit stays closed);
  from \<open>OPEN\<close>, \<open>should_allow_request\<close> answers false and changes nothing while
  \<open>now - open_since < recovery_timeout\<close>, and once the timeout has elapsed it answers
  true, moves to \<open>HALF_OPEN\<close> and sets the probe counter to one;
  from \<open>HALF_OPEN\<close>, fewer than \<open>success_threshold\<close> consecutive successes keep it
  half-open and exactly \<open>success_threshold\<close> close it, one failure opens it again,
  and at most \<open>half_open_max_requests\<close> calls of \<open>should_allow_request\<close> answer
  true while it is half-open (counting the call that opened the window, at most
  \<open>max 1 half_open_max_requests\<close>).
\<close>

theorem circuit_breaker_state_machine:
  assumes init: "initial_breaker cb0"
    and thresholds: "1 \<le> failure_threshold cb0" "1 \<le> success_threshold cb0"
      "0 \<le> half_open_max_requests cb0"
    and run: "cb = cb_run cb0 history"
  shows
    "(state cb = CLOSED \<and> failure_count cb = 0 \<and> (\<forall>operation \<in> set ops. is_record_failure operation) \<longrightarrow>
        (int (length ops) < failure_threshold cb \<longrightarrow>
           state (cb_run cb ops) = CLOSED \<and> failure_count (cb_run cb ops) = int (length ops)) \<and>
        (int (length ops) = failure_threshold cb \<longrightarrow> state (cb_run cb ops) = OPEN)) \<and>
     failure_count (record_success cb now) = 0 \<and>
     (state cb = CLOSED \<longrightarrow> state (record_success cb now) = CLOSED) \<and>
     (state cb = OPEN \<longrightarrow>
        (\<exists>since. open_since cb = Some since \<and>
           (now - since < recovery_timeout cb \<longrightarrow> should_allow_request cb now = (False, cb)) \<and>
           (recovery_timeout cb \<le> now - since \<longrightarrow>
              fst (should_allow_request cb now) \<and>
              state (snd (should_allow_request cb now)) = HALF_OPEN \<and>
              half_open_requests (snd (should_allow_request cb now)) = 1 \<and>
              success_count (snd (should_allow_request cb now)) = 0))) \<and>
     (state cb = HALF_OPEN \<and> success_count cb = 0 \<and> (\<forall>operation \<in> set ops. is_record_success operation) \<longrightarrow>
        (int (length ops) < success_threshold cb \<longrightarrow> state (cb_run cb ops) = HALF_OPEN) \<and>
        (int (length ops) = success_threshold cb \<longrightarrow> state (cb_run cb ops) = CLOSED)) \<and>
     (state cb = HALF_OPEN \<longrightarrow> state (record_failure cb e now now_open) = OPEN) \<and>
     (state cb = HALF_OPEN \<longrightarrow>
        int (half_open_admissions cb ops) \<le> half_open_max_requests cb \<and>
        1 + int (half_open_admissions cb ops) \<le> max 1 (half_open_max_requests cb))"
proof -
  have inv: "cb_inv cb"
    using init run by (simp add: cb_inv_initial cb_inv_run)
  have thr: "1 \<le> failure_threshold cb" "1 \<le> success_threshold cb" "0 \<le> half_open_max_requests cb"
    using thresholds run by simp_all
  have closed: "state cb = CLOSED \<and> failure_count cb = 0 \<and> (\<forall>operation \<in> set ops. is_record_failure operation) \<longrightarrow>
        (int (length ops) < failure_threshold cb \<longrightarrow>
           state (cb_run cb ops) = CLOSED \<and> failure_count (cb_run cb ops) = int (length ops)) \<and>
        (int (length ops) = failure_threshold cb \<longrightarrow> state (cb_run cb ops) = OPEN)"
  proof (intro impI conjI; elim conjE)
    assume a: "state cb = CLOSED" "failure_count cb = 0" "\<forall>operation \<in> set ops. is_record_failure operation"
    {
      assume "int (length ops) < failure_threshold cb"
      with a closed_failures_below [of cb ops]
      show "state (cb_run cb ops) = CLOSED" "failure_count (cb_run cb ops) = int (length ops)"
        by simp_all
    }
    {
      assume l: "int (length ops) = failure_threshold cb"
      with thr have "ops \<noteq> []" by auto
      with a l closed_failures_reach [of cb ops] show "state (cb_run cb ops) = OPEN"
        by simp
    }
  qed
  have opened: "state cb = OPEN \<longrightarrow>
        (\<exists>since. open_since cb = Some since \<and>
           (now - since < recovery_timeout cb \<longrightarrow> should_allow_request cb now = (False, cb)) \<and>
           (recovery_timeout cb \<le> now - since \<longrightarrow>
              fst (should_allow_request cb now) \<and>
              state (snd (should_allow_request cb now)) = HALF_OPEN \<and>
              half_open_requests (snd (should_allow_request cb now)) = 1 \<and>
              success_count (snd (should_allow_request cb now)) = 0))"
  proof
    assume o: "state cb = OPEN"
    with inv obtain since where since: "open_since cb = Some since"
      by (auto simp: cb_inv_def)
    from o inv have sc: "success_count cb = 0"
      by (simp add: cb_inv_def)
    show "\<exists>since. open_since cb = Some since \<and>
           (now - since < recovery_timeout cb \<longrightarrow> should_allow_request cb now = (False, cb)) \<and>
           (recovery_timeout cb \<le> now - since \<longrightarrow>
              fst (should_allow_request cb now) \<and>
              state (snd (should_allow_request cb now)) = HALF_OPEN \<and>
              half_open_requests (snd (should_allow_request cb now)) = 1 \<and>
              success_count (snd (should_allow_request cb now)) = 0)"
      using o since sc should_allow_request_open_early [of cb since now]
        should_allow_request_open_elapsed [of cb since now]
      by (intro exI [of _ since]) simp
  qed
  have half_open: "state cb = HALF_OPEN \<and> success_count cb = 0 \<and> (\<forall>operation \<in> set ops. is_record_success operation) \<longrightarrow>
        (int (length ops) < success_threshold cb \<longrightarrow> state (cb_run cb ops) = HALF_OPEN) \<and>
        (int (length ops) = success_threshold cb \<longrightarrow> state (cb_run cb ops) = CLOSED)"
  proof (intro impI conjI; elim conjE)
    assume a: "state cb = HALF_OPEN" "success_count cb = 0" "\<forall>operation \<in> set ops. is_record_success operation"
    {
      assume "int (length ops) < success_threshold cb"
      with a half_open_successes_below [of cb ops]
      show "state (cb_run cb ops) = HALF_OPEN"
        by simp
    }
    {
      assume l: "int (length ops) = success_threshold cb"
      with thr have "ops \<noteq> []" by auto
      with a l half_open_successes_reach [of cb ops] show "state (cb_run cb ops) = CLOSED"
        by simp
    }
  qed
  have admissions: "state cb = HALF_OPEN \<longrightarrow>
        int (half_open_admissions cb ops) \<le> half_open_max_requests cb \<and>
        1 + int (half_open_admissions cb ops) \<le> max 1 (half_open_max_requests cb)"
  proof
    assume h: "state cb = HALF_OPEN"
    with inv have "1 \<le> half_open_requests cb" by (simp add: cb_inv_def)
    with half_open_admissions_bound [OF h, of ops] thr
    show "int (half_open_admissions cb ops) \<le> half_open_max_requests cb \<and>
        1 + int (half_open_admissions cb ops) \<le> max 1 (half_open_max_requests cb)"
      by linarith
  qed
  show ?thesis
    using closed opened half_open admissions record_success_resets_streak [of cb now]
      record_success_closed [of cb now] record_failure_half_open [of cb e now now_open]
    by blast
qed

lemmas breaker_eval =
  default_breaker_def five_failures_def four_failures_def refused_def record_failure_def record_success_def
  should_allow_request_def transition_to_def Let_def initial_breaker_def
  is_record_failure_def is_record_success_def

theorem circuit_breaker_state_machine_witness:
  "initial_breaker default_breaker \<and>
   state (cb_run default_breaker four_failures) = CLOSED \<and>
   state (cb_run default_breaker five_failures) = OPEN \<and>
   failure_count (record_success (cb_run default_breaker four_failures) 11) = 0 \<and>
   should_allow_request (cb_run default_breaker five_failures) 39 =
     (False, cb_run default_breaker five_failures) \<and>
   state (cb_run default_breaker (five_failures @ [ShouldAllowRequest 40])) = HALF_OPEN \<and>
   state (cb_run default_breaker
            (five_failures @ [ShouldAllowRequest 40, RecordSuccess 41, RecordSuccess 42])) = CLOSED \<and>
   state (cb_run default_breaker
            (five_failures @ [ShouldAllowRequest 40, RecordFailure (PyException TimeoutError ''t'') 41 41])) = OPEN \<and>
   half_open_admissions (cb_run default_breaker (five_failures @ [ShouldAllowRequest 40]))
     [ShouldAllowRequest 41, ShouldAllowRequest 42] = 0"
proof -
  have i: "initial_breaker default_breaker"
    by (simp add: breaker_eval)
  have t: "1 \<le> failure_threshold default_breaker" "1 \<le> success_threshold default_breaker"
    "0 \<le> half_open_max_requests default_breaker"
    by (simp_all add: default_breaker_def)
  note sm = circuit_breaker_state_machine [OF i t]
  have c4: "state (cb_run default_breaker four_failures) = CLOSED"
    and c5: "state (cb_run default_breaker five_failures) = OPEN"
    using sm [of default_breaker "[]" four_failures] sm [of default_breaker "[]" five_failures]
    by (simp_all add: breaker_eval)
  have s: "failure_count (record_success (cb_run default_breaker four_failures) 11) = 0"
    using sm [of _ four_failures] by simp
  have o: "open_since (cb_run default_breaker five_failures) = Some 10"
    by (simp add: breaker_eval)
  have early: "should_allow_request (cb_run default_breaker five_failures) 39 =
     (False, cb_run default_breaker five_failures)"
    and late: "state (snd (should_allow_request (cb_run default_breaker five_failures) 40)) = HALF_OPEN"
      "success_count (snd (should_allow_request (cb_run default_breaker five_failures) 40)) = 0"
    using sm [of _ five_failures _ 39] sm [of _ five_failures _ 40] c5 o
    by (simp_all add: default_breaker_def)
  let ?h = "cb_run default_breaker (five_failures @ [ShouldAllowRequest 40])"
  have h: "state ?h = HALF_OPEN" "success_count ?h = 0"
    using late by (simp_all add: cb_run_append)
  have closes: "state (cb_run ?h [RecordSuccess 41, RecordSuccess 42]) = CLOSED"
    using sm [of ?h "five_failures @ [ShouldAllowRequest 40]" "[RecordSuccess 41, RecordSuccess 42]"] h
    by (simp add: is_record_success_def default_breaker_def)
  have reopens: "state (cb_run ?h [RecordFailure (PyException TimeoutError ''t'') 41 41]) = OPEN"
    using sm [of ?h "five_failures @ [ShouldAllowRequest 40]" _ 41 "PyException TimeoutError ''t''" 41] h
    by simp
  have hm: "half_open_max_requests ?h = 1"
    by (simp add: default_breaker_def)
  have "1 + int (half_open_admissions ?h [ShouldAllowRequest 41, ShouldAllowRequest 42])
          \<le> max 1 (half_open_max_requests ?h)"
    using sm [of ?h "five_failures @ [ShouldAllowRequest 40]" "[ShouldAllowRequest 41, ShouldAllowRequest 42]"] h
    by blast
  with hm have adm: "half_open_admissions ?h [ShouldAllowRequest 41, ShouldAllowRequest 42] = 0"
    by simp
  show ?thesis
    using i c4 c5 s early h closes reopens adm
    by (simp add: cb_run_append)
qed

text \<open>
  C3: the dispatch of \<open>get_fallback_decision\<close> on a strategy string.
  \<open>cache_then_deny\<close> returns the stale value if present and false otherwise,
  \<open>cache_then_allow\<close> the stale value if present and true otherwise, \<open>deny\<close> false
  and \<open>allow\<close> true whatever the stale value, any other string false; the stale value
  is taken as absent when a configured \<open>no_stale_for\<close> pattern matches the policy
  path (\<open>spec_stale_value\<close>).
\<close>

theorem get_fallback_decision_dispatch:
  assumes "fallback cb = Strategy strategy"
  shows "(strategy = ''cache_then_deny'' \<longrightarrow>
           get_fallback_decision lib cb req policy_path ctx stale error =
             Inr (case spec_stale_value lib cb policy_path stale of Some d \<Rightarrow> d | None \<Rightarrow> False)) \<and>
         (strategy = ''cache_then_allow'' \<longrightarrow>
           get_fallback_decision lib cb req policy_path ctx stale error =
             Inr (case spec_stale_value lib cb policy_path stale of Some d \<Rightarrow> d | None \<Rightarrow> True)) \<and>
         (strategy = ''deny'' \<longrightarrow>
           get_fallback_decision lib cb req policy_path ctx stale error = Inr False) \<and>
         (strategy = ''allow'' \<longrightarrow>
           get_fallback_decision lib cb req policy_path ctx stale error = Inr True) \<and>
         (strategy \<notin> {''cache_then_deny'', ''cache_then_allow'', ''deny'', ''allow''} \<longrightarrow>
           get_fallback_decision lib cb req policy_path ctx stale error = Inr False)"
  using assms unfolding get_fallback_decision_def fallback_stale_filter
  by (auto split: option.splits)


theorem get_fallback_decision_dispatch_witness:
  "get_fallback_decision example_library (admin_guarded_breaker ''cache_then_deny'') example_request
     ''myapp.GET.documents'' [] (Some True) (PyException ConnectionError ''down'') = Inr True \<and>
   get_fallback_decision example_library (admin_guarded_breaker ''cache_then_deny'') example_request
     ''myapp.admin.users'' [] (Some True) (PyException ConnectionError ''down'') = Inr False \<and>
   get_fallback_decision example_library (admin_guarded_breaker ''cache_then_allow'') example_request
     ''myapp.GET.documents'' [] None (PyException ConnectionError ''down'') = Inr True \<and>
   get_fallback_decision example_library (admin_guarded_breaker ''deny'') example_request
     ''myapp.GET.documents'' [] (Some True) (PyException ConnectionError ''down'') = Inr False \<and>
   get_fallback_decision example_library (admin_guarded_breaker ''allow'') example_request
     ''myapp.GET.documents'' [] (Some False) (PyException ConnectionError ''down'') = Inr True \<and>
   get_fallback_decision example_library (admin_guarded_breaker ''cache_first'') example_request
     ''myapp.GET.documents'' [] (Some True) (PyException ConnectionError ''down'') = Inr False"
proof -
  have f: "fallback (admin_guarded_breaker strategy) = Strategy strategy" for strategy
    by (simp add: admin_guarded_breaker_def)
  have kept: "spec_stale_value example_library (admin_guarded_breaker strategy)
      ''myapp.GET.documents'' stale = stale" for strategy stale
    by (simp add: spec_stale_value_def configured_patterns_def admin_guarded_breaker_def
        example_library_def)
  have dropped: "spec_stale_value example_library (admin_guarded_breaker strategy)
      ''myapp.admin.users'' stale = None" for strategy stale
    by (simp add: spec_stale_value_def configured_patterns_def admin_guarded_breaker_def
        example_library_def)
  show ?thesis
    using get_fallback_decision_dispatch [OF f, of "''cache_then_deny''" example_library example_request
        "''myapp.GET.documents''" "[]" "Some True" "PyException ConnectionError ''down''"]
      get_fallback_decision_dispatch [OF f, of "''cache_then_deny''" example_library example_request
        "''myapp.admin.users''" "[]" "Some True" "PyException ConnectionError ''down''"]
      get_fallback_decision_dispatch [OF f, of "''cache_then_allow''" example_library example_request
        "''myapp.GET.documents''" "[]" None "PyException ConnectionError ''down''"]
      get_fallback_decision_dispatch [OF f, of "''deny''" example_library example_request
        "''myapp.GET.documents''" "[]" "Some True" "PyException ConnectionError ''down''"]
      get_fallback_decision_dispatch [OF f, of "''allow''" example_library example_request
        "''myapp.GET.documents''" "[]" "Some False" "PyException ConnectionError ''down''"]
      get_fallback_decision_dispatch [OF f, of "''cache_first''" example_library example_request
        "''myapp.GET.documents''" "[]" "Some True" "PyException ConnectionError ''down''"]
    by (simp add: kept dropped)
qed

section \<open>Properties of the decision cache\<close>

lemma map_of_fold_delete_None:
  "map_of c k = None \<Longrightarrow> map_of (fold AList.delete ks c) k = None"
  by (induction ks arbitrary: c) (simp_all add: delete_conv')

lemma map_of_evict_None: "map_of (cache dc) k = None \<Longrightarrow> map_of (evict dc now) k = None"
  by (simp add: evict_def Let_def map_of_fold_delete_None)

lemma cache_set_lookup_same:
  "map_of (cache (cache_set lib dc i p d ctx v now now_insert)) (make_key lib i p d ctx) =
     Some \<lparr>entry_value = v, expires_at = now_insert + ttl_seconds dc\<rparr>"
  by (simp add: cache_set_def Let_def update_conv')

lemma cache_set_lookup_other:
  "k \<noteq> make_key lib i p d ctx \<Longrightarrow> map_of (cache dc) k = None \<Longrightarrow>
   map_of (cache (cache_set lib dc i p d ctx v now now_insert)) k = None"
  by (simp add: cache_set_def Let_def update_conv' map_of_evict_None)

lemma cache_get_after_set:
  "now_get \<le> now_insert + ttl_seconds dc \<Longrightarrow>
   cache_get lib (cache_set lib dc i p d ctx v now now_insert) i p d ctx now_get =
     (Some v, cache_set lib dc i p d ctx v now now_insert)"
  by (simp add: cache_get_def Let_def cache_set_lookup_same)

lemma cache_get_expired:
  "now_get > now_insert + ttl_seconds dc \<Longrightarrow>
   fst (cache_get lib (cache_set lib dc i p d ctx v now now_insert) i p d ctx now_get) = None \<and>
   map_of (cache (snd (cache_get lib (cache_set lib dc i p d ctx v now now_insert) i p d ctx now_get)))
     (make_key lib i p d ctx) = None"
  by (simp add: cache_get_def Let_def cache_set_lookup_same delete_conv')

lemma cache_get_other:
  "make_key lib i' p' d' ctx' \<noteq> make_key lib i p d ctx \<Longrightarrow>
   map_of (cache dc) (make_key lib i' p' d' ctx') = None \<Longrightarrow>
   cache_get lib (cache_set lib dc i p d ctx v now now_insert) i' p' d' ctx' now_get =
     (None, cache_set lib dc i p d ctx v now now_insert)"
  by (simp add: cache_get_def Let_def cache_set_lookup_other)

lemma key_data_identity: "i' \<noteq> i \<Longrightarrow> key_data lib i' p d ctx \<noteq> key_data lib i p d ctx"
  by (simp add: key_data_def)

lemma key_data_policy_path: "p' \<noteq> p \<Longrightarrow> key_data lib i p' d ctx \<noteq> key_data lib i p d ctx"
  by (simp add: key_data_def)

lemma key_data_decision: "d' \<noteq> d \<Longrightarrow> key_data lib i p d' ctx \<noteq> key_data lib i p d ctx"
  by (simp add: key_data_def)

lemma key_data_context:
  "key_data lib i p d ctx' = key_data lib i p d ctx \<longleftrightarrow> ctx_str lib ctx' = ctx_str lib ctx"
  by (simp add: key_data_def)

lemma key_data_None_empty: "key_data lib i p d None = key_data lib i p d (Some [])"
  by (simp add: key_data_def ctx_str_def)


text \<open>
  C8 (as stated): after \<open>set\<close>, \<open>get\<close> with one field changed is absent. It is not
  when the changed field is the context and the change is from no context (\<open>None\<close>) to
  the empty one: both contribute the empty string to the key, so the value set is
  returned (for every digest and rendering; here with the example library).
\<close>

theorem cache_get_none_vs_empty_counterexample:
  "fst (cache_get example_library
         (cache_set example_library (new_cache 60 1000) ''alice'' ''myapp.GET.documents'' ''allowed''
            None True 0 0)
         ''alice'' ''myapp.GET.documents'' ''allowed'' (Some []) 0) = Some True"
  by (simp add: cache_get_def cache_set_def make_key_def key_data_def ctx_str_def Let_def
      update_conv' new_cache_def)

text \<open>
  C8 (amended): \<open>set\<close> followed by \<open>get\<close> with the same key fields, before the entry
  expires, returns the value; \<open>get\<close> with fields whose derived key differs returns
  absent when the cache held no entry under that key; one changed identity, policy path
  or decision, or a context with another rendering, always changes the key data, so only
  a collision of the truncated digest can make such keys equal; and with
  \<open>ttl_seconds = 60\<close> a value inserted at \<open>t\<close> is returned at \<open>t + 59\<close> and absent at
  \<open>t + 61\<close>, where that \<open>get\<close> removes the entry.
\<close>

theorem decision_cache_round_trip:
  "(now_get \<le> now_insert + ttl_seconds dc \<longrightarrow>
      fst (cache_get lib (cache_set lib dc i p d ctx v now now_insert) i p d ctx now_get) = Some v) \<and>
   (make_key lib i' p' d' ctx' \<noteq> make_key lib i p d ctx \<and>
    map_of (cache dc) (make_key lib i' p' d' ctx') = None \<longrightarrow>
      fst (cache_get lib (cache_set lib dc i p d ctx v now now_insert) i' p' d' ctx' now_get) = None) \<and>
   (i' \<noteq> i \<longrightarrow> key_data lib i' p d ctx \<noteq> key_data lib i p d ctx) \<and>
   (p' \<noteq> p \<longrightarrow> key_data lib i p' d ctx \<noteq> key_data lib i p d ctx) \<and>
   (d' \<noteq> d \<longrightarrow> key_data lib i p d' ctx \<noteq> key_data lib i p d ctx) \<and>
   (ctx_str lib ctx' \<noteq> ctx_str lib ctx \<longrightarrow> key_data lib i p d ctx' \<noteq> key_data lib i p d ctx) \<and>
   (ttl_seconds dc = 60 \<longrightarrow>
      fst (cache_get lib (cache_set lib dc i p d ctx v now t) i p d ctx (t + 59)) = Some v \<and>
      fst (cache_get lib (cache_set lib dc i p d ctx v now t) i p d ctx (t + 61)) = None \<and>
      map_of (cache (snd (cache_get lib (cache_set lib dc i p d ctx v now t) i p d ctx (t + 61))))
        (make_key lib i p d ctx) = None)"
proof -
  have ttl: "ttl_seconds dc = 60 \<longrightarrow>
      fst (cache_get lib (cache_set lib dc i p d ctx v now t) i p d ctx (t + 59)) = Some v \<and>
      fst (cache_get lib (cache_set lib dc i p d ctx v now t) i p d ctx (t + 61)) = None \<and>
      map_of (cache (snd (cache_get lib (cache_set lib dc i p d ctx v now t) i p d ctx (t + 61))))
        (make_key lib i p d ctx) = None"
    using cache_get_after_set [of "t + 59" t dc lib i p d ctx v now]
      cache_get_expired [of t dc "t + 61" lib i p d ctx v now]
    by simp
  show ?thesis
    using ttl cache_get_after_set [of now_get now_insert dc lib i p d ctx v now]
      cache_get_other [of lib i' p' d' ctx' i p d ctx dc v now now_insert now_get]
      key_data_identity [of i' i lib p d ctx] key_data_policy_path [of p' p lib i d ctx]
      key_data_decision [of d' d lib i p ctx] key_data_context [of lib i p d ctx' ctx]
    by simp
qed

theorem decision_cache_round_trip_witness:
  "fst (cache_get example_library
         (cache_set example_library (new_cache 60 1000) ''alice'' ''myapp.GET.documents'' ''allowed''
            (Some [(''id'', ''42'')]) True 100 100)
         ''alice'' ''myapp.GET.documents'' ''allowed'' (Some [(''id'', ''42'')]) 100) = Some True \<and>
   fst (cache_get example_library
         (cache_set example_library (new_cache 60 1000) ''alice'' ''myapp.GET.documents'' ''allowed''
            (Some [(''id'', ''42'')]) True 100 100)
         ''bob'' ''myapp.GET.documents'' ''allowed'' (Some [(''id'', ''42'')]) 100) = None \<and>
   key_data example_library ''bob'' ''myapp.GET.documents'' ''allowed'' (Some [(''id'', ''42'')])
     \<noteq> key_data example_library ''alice'' ''myapp.GET.documents'' ''allowed'' (Some [(''id'', ''42'')]) \<and>
   fst (cache_get example_library
         (cache_set example_library (new_cache 60 1000) ''alice'' ''myapp.GET.documents'' ''allowed''
            (Some [(''id'', ''42'')]) True 100 100)
         ''alice'' ''myapp.GET.documents'' ''allowed'' (Some [(''id'', ''42'')]) (100 + 59)) = Some True \<and>
   fst (cache_get example_library
         (cache_set example_library (new_cache 60 1000) ''alice'' ''myapp.GET.documents'' ''allowed''
            (Some [(''id'', ''42'')]) True 100 100)
         ''alice'' ''myapp.GET.documents'' ''allowed'' (Some [(''id'', ''42'')]) (100 + 61)) = None"
proof -
  have k: "make_key example_library ''bob'' ''myapp.GET.documents'' ''allowed'' (Some [(''id'', ''42'')])
      \<noteq> make_key example_library ''alice'' ''myapp.GET.documents'' ''allowed'' (Some [(''id'', ''42'')])"
    by (simp add: make_key_def key_data_def example_library_def)
  have n: "map_of (cache (new_cache 60 1000)) k = None" for k
    by (simp add: new_cache_def)
  have t: "ttl_seconds (new_cache 60 1000) = 60" "(100::real) \<le> 100 + ttl_seconds (new_cache 60 1000)"
    by (simp_all add: new_cache_def)
  have b: "''bob'' \<noteq> ''alice''" by simp
  show ?thesis
    using decision_cache_round_trip [where now_get = 100 and now_insert = 100
        and dc = "new_cache 60 1000" and lib = example_library
        and i = "''alice''" and p = "''myapp.GET.documents''" and d = "''allowed''"
        and ctx = "Some [(''id'', ''42'')]" and v = True and now = 100
        and i' = "''bob''" and p' = "''myapp.GET.documents''" and d' = "''allowed''"
        and ctx' = "Some [(''id'', ''42'')]" and t = 100] k n t b
    by simp
qed

text \<open>
  C10: the number of entries never exceeds \<open>max_size\<close>. The code breaks this for
  \<open>max_size < 10\<close>: the slice to evict has \<open>max_size // 10 = 0\<close> keys, so a full
  table with no expired entry evicts nothing and grows. Six values set in a cache of
  \<open>max_size = 5\<close> are all stored.
\<close>

theorem decision_cache_exceeds_max_size:
  "max_size (set_for_users [''u1'', ''u2'', ''u3'', ''u4'', ''u5'', ''u6''] (new_cache 60 5)) = 5 \<and>
   length (cache (set_for_users [''u1'', ''u2'', ''u3'', ''u4'', ''u5'', ''u6''] (new_cache 60 5))) = 6"
  by (simp add: set_for_users_def cache_set_def evict_def make_key_def key_data_def ctx_str_def
      example_library_def new_cache_def Let_def py_slice_to_def)


text \<open>
  From \<open>max_size = 10\<close> on the bound holds: \<open>set\<close> on a table within the bound makes
  room for the entry it inserts.
\<close>

lemma length_update_le: "length (AList.update k v al) \<le> Suc (length al)"
  by (induction al) auto

lemma length_fold_delete_le: "length (fold AList.delete ks al) \<le> length al"
proof (induction ks arbitrary: al)
  case Nil
  then show ?case by simp
next
  case (Cons k ks)
  have "length (fold AList.delete ks (AList.delete k al)) \<le> length (AList.delete k al)"
    by (rule Cons.IH)
  also have "\<dots> \<le> length al" by (rule length_delete_le)
  finally show ?case by simp
qed

lemma distinct_fold_delete:
  "distinct (map fst al) \<Longrightarrow> distinct (map fst (fold AList.delete ks al))"
  by (induction ks arbitrary: al) (simp_all add: distinct_delete)

lemma fold_delete_first_keys:
  "distinct (map fst al) \<Longrightarrow> fold AList.delete (take n (map fst al)) al = drop n al"
proof (induction al arbitrary: n)
  case Nil
  then show ?case by simp
next
  case (Cons kv al)
  show ?case
  proof (cases n)
    case 0
    then show ?thesis by simp
  next
    case (Suc m)
    obtain k v where kv: "kv = (k, v)" by (cases kv)
    from Cons.prems kv have "k \<notin> fst ` set al" by auto
    then have "AList.delete k (kv # al) = al"
      using kv by simp
    moreover from Cons.prems have "fold AList.delete (take m (map fst al)) al = drop m al"
      by (intro Cons.IH) simp
    ultimately show ?thesis using Suc kv by simp
  qed
qed

lemma evict_distinct: "distinct (map fst (cache dc)) \<Longrightarrow> distinct (map fst (evict dc now))"
  by (simp add: evict_def Let_def distinct_fold_delete)

lemma evict_makes_room:
  assumes "distinct (map fst (cache dc))" "int (length (cache dc)) \<le> max_size dc" "10 \<le> max_size dc"
  shows "int (length (evict dc now)) < max_size dc"
proof (cases "int (length (cache dc)) \<ge> max_size dc")
  case False
  then show ?thesis by (simp add: evict_def)
next
  case True
  define c1 where "c1 = fold AList.delete
      (map fst (filter (\<lambda>(k, v). expires_at v < now) (cache dc))) (cache dc)"
  have d1: "distinct (map fst c1)"
    unfolding c1_def using assms(1) by (rule distinct_fold_delete)
  have l1: "length c1 \<le> length (cache dc)"
    unfolding c1_def by (rule length_fold_delete_le)
  show ?thesis
  proof (cases "int (length c1) \<ge> max_size dc")
    case False
    with True show ?thesis by (simp add: evict_def Let_def c1_def)
  next
    case full: True
    have nonneg: "0 \<le> max_size dc div 10"
      using assms(3) by linarith
    have slice: "py_slice_to (max_size dc div 10) (map fst c1) = take (nat (max_size dc div 10)) (map fst c1)"
      using nonneg by (simp add: py_slice_to_def)
    have "evict dc now = drop (nat (max_size dc div 10)) c1"
      using True full slice fold_delete_first_keys [OF d1] by (simp add: evict_def Let_def c1_def)
    moreover have "1 \<le> max_size dc div 10" using assms(3) by linarith
    moreover have "length c1 > 0" using full assms(3) by auto
    ultimately show ?thesis using l1 assms(2) by simp
  qed
qed

lemma cache_set_bounded:
  assumes "distinct (map fst (cache dc))" "int (length (cache dc)) \<le> max_size dc" "10 \<le> max_size dc"
  shows "distinct (map fst (cache (cache_set lib dc i p d ctx v now now_insert))) \<and>
         int (length (cache (cache_set lib dc i p d ctx v now now_insert))) \<le> max_size dc \<and>
         max_size (cache_set lib dc i p d ctx v now now_insert) = max_size dc"
proof -
  let ?k = "make_key lib i p d ctx"
  let ?e = "\<lparr>entry_value = v, expires_at = now_insert + ttl_seconds dc\<rparr>"
  have "length (AList.update ?k ?e (evict dc now)) \<le> Suc (length (evict dc now))"
    by (rule length_update_le)
  with evict_makes_room [OF assms, of now]
  have "int (length (AList.update ?k ?e (evict dc now))) \<le> max_size dc" by simp
  moreover have "distinct (map fst (AList.update ?k ?e (evict dc now)))"
    using evict_distinct [OF assms(1)] by (simp add: distinct_update)
  ultimately show ?thesis by (simp add: cache_set_def Let_def)
qed

section \<open>Properties of the connection pool\<close>


lemma mark_used_fields [simp]:
  "idle (mark_used pool conn now) = idle pool"
  "busy (mark_used pool conn now) = busy pool"
  "connections (mark_used pool conn now) = connections pool"
  "semaphore (mark_used pool conn now) = semaphore pool"
  "next_id (mark_used pool conn now) = next_id pool"
  "closed (mark_used pool conn now) = closed pool"
  "initialized (mark_used pool conn now) = initialized pool"
  "max_connections (mark_used pool conn now) = max_connections pool"
  "min_connections (mark_used pool conn now) = min_connections pool"
  "eager_init (mark_used pool conn now) = eager_init pool"
  "authorizer_options (mark_used pool conn now) = authorizer_options pool"
  by (simp_all add: mark_used_def split: option.splits)

lemma set_healthy_fields [simp]:
  "idle (set_healthy pool conn h) = idle pool"
  "busy (set_healthy pool conn h) = busy pool"
  "connections (set_healthy pool conn h) = connections pool"
  "semaphore (set_healthy pool conn h) = semaphore pool"
  "next_id (set_healthy pool conn h) = next_id pool"
  "closed (set_healthy pool conn h) = closed pool"
  "initialized (set_healthy pool conn h) = initialized pool"
  "max_connections (set_healthy pool conn h) = max_connections pool"
  "min_connections (set_healthy pool conn h) = min_connections pool"
  "eager_init (set_healthy pool conn h) = eager_init pool"
  by (simp_all add: set_healthy_def split: option.splits)

lemma create_connection_Inl:
  "create_connection new_client pool now = (Inl e, pool1) \<Longrightarrow>
   idle pool1 = idle pool \<and> busy pool1 = busy pool \<and> connections pool1 = connections pool \<and>
   semaphore pool1 = semaphore pool \<and> next_id pool1 = next_id pool \<and> closed pool1 = closed pool \<and>
   initialized pool1 = initialized pool \<and> max_connections pool1 = max_connections pool \<and>
   min_connections pool1 = min_connections pool \<and> eager_init pool1 = eager_init pool \<and>
   authorizer_options pool1 = authorizer_options pool"
  by (auto simp: create_connection_def Let_def split: if_splits option.splits)

lemma create_connection_Inr:
  "create_connection new_client pool now = (Inr conn, pool1) \<Longrightarrow>
   conn = next_id pool \<and> next_id pool1 = Suc (next_id pool) \<and>
   connections pool1 = insert conn (connections pool) \<and>
   idle pool1 = idle pool \<and> busy pool1 = busy pool \<and>
   semaphore pool1 = semaphore pool \<and> closed pool1 = closed pool \<and>
   initialized pool1 = initialized pool \<and> max_connections pool1 = max_connections pool \<and>
   min_connections pool1 = min_connections pool \<and> eager_init pool1 = eager_init pool \<and>
   authorizer_options pool1 = authorizer_options pool"
  by (auto simp: create_connection_def Let_def split: if_splits option.splits)

lemma eager_loop_wf:
  "pool_wf pool \<Longrightarrow>
   pool_wf (eager_loop new_client now n pool) \<and>
   length (idle (eager_loop new_client now n pool)) \<le> length (idle pool) + n \<and>
   only_fresh pool (eager_loop new_client now n pool) \<and>
   busy (eager_loop new_client now n pool) = busy pool \<and>
   semaphore (eager_loop new_client now n pool) = semaphore pool \<and>
   closed (eager_loop new_client now n pool) = closed pool \<and>
   initialized (eager_loop new_client now n pool) = initialized pool \<and>
   max_connections (eager_loop new_client now n pool) = max_connections pool \<and>
   min_connections (eager_loop new_client now n pool) = min_connections pool \<and>
   eager_init (eager_loop new_client now n pool) = eager_init pool"
proof (induction n arbitrary: pool)
  case 0
  then show ?case by (simp add: only_fresh_def)
next
  case (Suc n)
  obtain r pool1 where cc: "create_connection new_client pool now = (r, pool1)"
    by (cases "create_connection new_client pool now")
  show ?case
  proof (cases r)
    case (Inl e)
    with cc have same: "idle pool1 = idle pool" "busy pool1 = busy pool"
      "connections pool1 = connections pool" "next_id pool1 = next_id pool"
      "semaphore pool1 = semaphore pool" "closed pool1 = closed pool"
      "initialized pool1 = initialized pool" "max_connections pool1 = max_connections pool"
      "min_connections pool1 = min_connections pool" "eager_init pool1 = eager_init pool"
      using create_connection_Inl [of new_client pool now e pool1] by simp_all
    with Suc.prems have "pool_wf pool1" by (simp add: pool_wf_def)
    from Suc.IH [OF this] same cc Inl show ?thesis by (simp add: only_fresh_def)
  next
    case (Inr conn)
    with cc have new: "conn = next_id pool" "next_id pool1 = Suc (next_id pool)"
      "connections pool1 = insert conn (connections pool)"
      "idle pool1 = idle pool" "busy pool1 = busy pool"
      "semaphore pool1 = semaphore pool" "closed pool1 = closed pool"
      "initialized pool1 = initialized pool" "max_connections pool1 = max_connections pool"
      "min_connections pool1 = min_connections pool" "eager_init pool1 = eager_init pool"
      using create_connection_Inr [of new_client pool now conn pool1] by simp_all
    let ?p = "pool1\<lparr>idle := idle pool1 @ [conn]\<rparr>"
    from Suc.prems new(1-5) have "pool_wf ?p"
      unfolding pool_wf_def by (auto intro: less_SucI)
    from Suc.IH [OF this] new cc Inr show ?thesis by (auto simp: only_fresh_def)
  qed
qed

lemma pool_inv_initialize:
  assumes "pool_inv pool" "initialize new_client pool now = Inr pool1"
  shows "pool_inv pool1 \<and> initialized pool1 \<and> closed pool1 = closed pool \<and>
         max_connections pool1 = max_connections pool \<and> only_fresh pool pool1 \<and>
         busy pool1 = busy pool"
proof (cases "initialized pool")
  case True
  with assms show ?thesis by (simp add: initialize_def only_fresh_def)
next
  case False
  with assms(1) obtain permits where sem: "semaphore pool = Some permits" "0 \<le> permits"
    "permits \<le> max_connections pool" and empty: "idle pool = []" "busy pool = {}"
    and sane: "eager_init pool \<longrightarrow> min_connections pool \<le> max_connections pool"
    and wf: "pool_wf pool"
    by (auto simp: pool_inv_def)
  let ?n = "nat (min_connections pool)"
  let ?e = "eager_loop new_client now ?n pool"
  note el = eager_loop_wf [OF wf, of new_client now ?n]
  show ?thesis
  proof (cases "eager_init pool \<and> authorizer_options pool \<noteq> None")
    case True
    with False sem assms(2) have p1: "pool1 =
        (if idle_check_interval ?e > 0 then ?e\<lparr>cleanup_task := True\<rparr> else ?e)\<lparr>initialized := True\<rparr>"
      by (auto simp: initialize_def Let_def)
    have len: "int (length (idle ?e)) \<le> max_connections pool"
      using el empty sane True sem by auto
    have ids: "only_fresh pool ?e"
      using el by simp
    show ?thesis
      using el len sem empty ids
      by (auto simp: p1 pool_inv_def pool_wf_def only_fresh_def)
  next
    case no_eager: False
    with False sem assms(2) have p1: "pool1 =
        (if idle_check_interval pool > 0 then pool\<lparr>cleanup_task := True\<rparr> else pool)\<lparr>initialized := True\<rparr>"
      by (auto simp: initialize_def Let_def)
    show ?thesis
      using wf sem empty
      by (auto simp: p1 pool_inv_def pool_wf_def only_fresh_def)
  qed
qed

lemma only_fresh_refl: "only_fresh pool pool"
  by (simp add: only_fresh_def)

lemma only_fresh_trans: "only_fresh a b \<Longrightarrow> only_fresh b c \<Longrightarrow> only_fresh a c"
  by (fastforce simp: only_fresh_def)

text \<open>\<open>acquire\<close> on an initialized, open pool.\<close>

lemma acquire_initialized:
  assumes inv: "pool_inv pool" and init: "initialized pool" "\<not> closed pool"
    and acq: "acquire new_client pool now = (r, pool')"
  shows "pool_inv pool' \<and> initialized pool' \<and> \<not> closed pool' \<and>
         max_connections pool' = max_connections pool \<and> only_fresh pool pool' \<and>
         (\<forall>conn. r = Inr conn \<longrightarrow> conn \<notin> busy pool \<and> conn \<in> connections pool')"
proof -
  from inv obtain permits where sem: "semaphore pool = Some permits" "0 \<le> permits"
    "int (card (busy pool)) + permits \<le> max_connections pool"
    and total: "int (length (idle pool)) + int (card (busy pool)) \<le> max_connections pool"
    and wf: "pool_wf pool"
    by (auto simp: pool_inv_def)
  from wf have fin: "finite (busy pool)" and dist: "distinct (idle pool)"
    and disj: "set (idle pool) \<inter> busy pool = {}"
    and conns: "connections pool = set (idle pool) \<union> busy pool"
    and ids: "\<forall>conn \<in> connections pool. conn < next_id pool"
    by (auto simp: pool_wf_def)
  show ?thesis
  proof (cases "permits \<le> 0")
    case True
    with acq init sem have "r = Inl (PyException TimeoutError ''timeout'')" "pool' = pool"
      by (auto simp: acquire_def)
    with inv init show ?thesis by (simp add: only_fresh_refl)
  next
    case False
    let ?p2 = "pool\<lparr>semaphore := Some (permits - 1)\<rparr>"
    show ?thesis
    proof (cases "idle pool")
      case (Cons conn rest)
      with acq init sem False have r: "r = Inr conn"
        and p: "pool' = (mark_used (?p2\<lparr>idle := rest\<rparr>) conn now)
                  \<lparr>busy := insert conn (busy (mark_used (?p2\<lparr>idle := rest\<rparr>) conn now))\<rparr>"
        by (auto simp: acquire_def Let_def)
      from Cons disj have nb: "conn \<notin> busy pool" by auto
      from Cons dist have nr: "conn \<notin> set rest" "distinct rest" by auto
      have card: "card (insert conn (busy pool)) = Suc (card (busy pool))"
        using fin nb by simp
      have wf': "pool_wf pool'"
        using fin nr disj conns ids Cons unfolding pool_wf_def p by auto
      have "pool_inv pool'"
        using wf' sem False total Cons card init unfolding pool_inv_def p by simp
      moreover have "only_fresh pool pool'"
        using conns Cons unfolding only_fresh_def p by auto
      ultimately show ?thesis
        using r nb init conns Cons by (auto simp: p)
    next
      case Nil
      obtain r3 pool3 where cc: "create_connection new_client ?p2 now = (r3, pool3)"
        by (cases "create_connection new_client ?p2 now")
      show ?thesis
      proof (cases r3)
        case (Inl e)
        with cc acq init sem False Nil have r: "r = Inl e"
          and p: "pool' = pool3\<lparr>semaphore := Some (permits - 1 + 1)\<rparr>"
          by (auto simp: acquire_def Let_def)
        note same = create_connection_Inl [OF cc [unfolded Inl]]
        have wf': "pool_wf pool'"
          using wf same unfolding pool_wf_def p by simp
        have "pool_inv pool'"
          using wf' sem total same init unfolding pool_inv_def p by simp
        moreover have "only_fresh pool pool'"
          using same unfolding only_fresh_def p by simp
        ultimately show ?thesis
          using r init same by (simp add: p)
      next
        case (Inr conn)
        with cc acq init sem False Nil have r: "r = Inr conn"
          and p: "pool' = (mark_used pool3 conn now)
                    \<lparr>busy := insert conn (busy (mark_used pool3 conn now))\<rparr>"
          by (auto simp: acquire_def Let_def)
        note new = create_connection_Inr [OF cc [unfolded Inr]]
        from new have c: "conn = next_id pool" by simp
        with ids conns have nb: "conn \<notin> busy pool" by auto
        have card: "card (insert conn (busy pool)) = Suc (card (busy pool))"
          using fin nb by simp
        have wf': "pool_wf pool'"
          using fin disj conns ids Nil new nb unfolding pool_wf_def p by (auto intro: less_SucI)
        have "pool_inv pool'"
          using wf' sem False total Nil card init new unfolding pool_inv_def p by simp
        moreover have "only_fresh pool pool'"
          using new unfolding only_fresh_def p by auto
        ultimately show ?thesis
          using r nb init new by (auto simp: p)
      qed
    qed
  qed
qed

lemma acquire_closed:
  "closed pool \<Longrightarrow>
   acquire new_client pool now = (Inl (PyException RuntimeError ''Connection pool is closed''), pool)"
  by (simp add: acquire_def)

lemma eager_loop_closed: "closed (eager_loop new_client now n pool) = closed pool"
proof (induction n arbitrary: pool)
  case 0
  then show ?case by simp
next
  case (Suc n)
  obtain r pool1 where cc: "create_connection new_client pool now = (r, pool1)"
    by (cases "create_connection new_client pool now")
  then have "closed pool1 = closed pool"
    using create_connection_Inl [of new_client pool now _ pool1]
      create_connection_Inr [of new_client pool now _ pool1]
    by (cases r) simp_all
  with cc Suc.IH [of pool1] Suc.IH [of "pool1\<lparr>idle := idle pool1 @ [projr r]\<rparr>"]
  show ?case by (cases r) simp_all
qed

lemma acquire_uninitialized:
  assumes "\<not> closed pool" "\<not> initialized pool" "initialize new_client pool now = Inr pool1"
  shows "acquire new_client pool now = acquire new_client pool1 now"
proof -
  from assms have "initialized pool1" "\<not> closed pool1"
    by (auto simp: initialize_def Let_def eager_loop_closed split: if_splits)
  with assms show ?thesis by (simp add: acquire_def)
qed

lemma initialize_succeeds:
  "pool_inv pool \<Longrightarrow> \<exists>pool1. initialize new_client pool now = Inr pool1"
  by (auto simp: initialize_def pool_inv_def Let_def)

lemma pool_inv_acquire:
  assumes inv: "pool_inv pool" and acq: "acquire new_client pool now = (r, pool')"
  shows "pool_inv pool' \<and> closed pool' = closed pool \<and>
         max_connections pool' = max_connections pool \<and> only_fresh pool pool' \<and>
         (\<forall>conn. r = Inr conn \<longrightarrow> conn \<notin> busy pool \<and> conn \<in> connections pool') \<and>
         (closed pool \<longrightarrow> r = Inl (PyException RuntimeError ''Connection pool is closed''))"
proof (cases "closed pool")
  case True
  with acq inv show ?thesis by (auto simp: acquire_closed only_fresh_refl)
next
  case open_pool: False
  show ?thesis
  proof (cases "initialized pool")
    case True
    from acquire_initialized [OF inv True open_pool acq] open_pool show ?thesis by simp
  next
    case False
    from initialize_succeeds [OF inv] obtain pool1 where i: "initialize new_client pool now = Inr pool1"
      by blast
    from pool_inv_initialize [OF inv i] have p1: "pool_inv pool1" "initialized pool1"
      "closed pool1 = closed pool" "max_connections pool1 = max_connections pool"
      "only_fresh pool pool1" "busy pool1 = busy pool"
      by simp_all
    from acquire_uninitialized [OF open_pool False i] acq
    have acq1: "acquire new_client pool1 now = (r, pool')" by simp
    from acquire_initialized [OF p1(1,2) _ acq1] p1 open_pool
    show ?thesis by (auto intro: only_fresh_trans)
  qed
qed

lemma pool_inv_release:
  assumes inv: "pool_inv pool"
  shows "pool_inv (release pool conn now) \<and> closed (release pool conn now) = closed pool \<and>
         max_connections (release pool conn now) = max_connections pool \<and>
         only_fresh pool (release pool conn now) \<and>
         (conn \<in> busy pool \<and> \<not> is_healthy pool conn \<longrightarrow> conn \<notin> connections (release pool conn now))"
proof (cases "conn \<in> busy pool")
  case False
  with inv show ?thesis by (simp add: release_def only_fresh_refl)
next
  case True
  from inv obtain permits where sem: "semaphore pool = Some permits" "0 \<le> permits"
    "int (card (busy pool)) + permits \<le> max_connections pool"
    and total: "int (length (idle pool)) + int (card (busy pool)) \<le> max_connections pool"
    and wf: "pool_wf pool"
    and init: "initialized pool"
    using True by (auto simp: pool_inv_def)
  from wf have fin: "finite (busy pool)" and dist: "distinct (idle pool)"
    and disj: "set (idle pool) \<inter> busy pool = {}"
    and conns: "connections pool = set (idle pool) \<union> busy pool"
    and ids: "\<forall>conn \<in> connections pool. conn < next_id pool"
    by (auto simp: pool_wf_def)
  have "card (busy pool) > 0"
    using fin True by (auto simp: card_gt_0_iff)
  then have card: "int (card (busy pool - {conn})) = int (card (busy pool)) - 1"
    using True by (simp add: of_nat_diff)
  from True disj have ni: "conn \<notin> set (idle pool)" by auto
  let ?p1 = "pool\<lparr>busy := busy pool - {conn}\<rparr>"
  have h1: "is_healthy ?p1 conn = is_healthy pool conn"
    by (simp add: is_healthy_def)
  show ?thesis
  proof (cases "is_healthy pool conn \<and> \<not> closed pool")
    case healthy: True
    have p: "release pool conn now =
        (mark_used ?p1 conn now)\<lparr>idle := idle pool @ [conn], semaphore := Some (permits + 1)\<rparr>"
      using True healthy h1 sem by (simp add: release_def Let_def)
    have wf': "pool_wf (release pool conn now)"
      using fin dist disj conns ids ni True unfolding pool_wf_def p by auto
    have "pool_inv (release pool conn now)"
      using wf' sem total card init unfolding pool_inv_def p by simp
    moreover have "only_fresh pool (release pool conn now)"
      unfolding only_fresh_def p by simp
    ultimately show ?thesis using healthy by (simp add: p)
  next
    case unhealthy: False
    have p: "release pool conn now =
        ?p1\<lparr>connections := connections pool - {conn}, semaphore := Some (permits + 1)\<rparr>"
      using True unhealthy h1 sem by (auto simp: release_def Let_def)
    have wf': "pool_wf (release pool conn now)"
      using fin dist disj conns ids ni True unfolding pool_wf_def p by auto
    have "pool_inv (release pool conn now)"
      using wf' sem total card init unfolding pool_inv_def p by simp
    moreover have "only_fresh pool (release pool conn now)"
      unfolding only_fresh_def p by simp
    ultimately show ?thesis by (simp add: p)
  qed
qed

lemma pool_inv_close:
  "pool_inv pool \<Longrightarrow> pool_inv (close pool) \<and> closed (close pool) \<and>
     max_connections (close pool) = max_connections pool \<and> only_fresh pool (close pool)"
  by (auto simp: pool_inv_def pool_wf_def close_def only_fresh_def)

lemma pool_inv_set_healthy:
  "pool_inv pool \<Longrightarrow> pool_inv (set_healthy pool conn h) \<and>
     closed (set_healthy pool conn h) = closed pool \<and>
     max_connections (set_healthy pool conn h) = max_connections pool \<and>
     only_fresh pool (set_healthy pool conn h)"
  by (simp add: pool_inv_def pool_wf_def only_fresh_def)

lemma cleanup_loop_partition:
  "cleanup_loop pool now queue to_close temp_idle = (to_close', temp_idle') \<Longrightarrow>
   set to_close' \<union> set temp_idle' = set queue \<union> set to_close \<union> set temp_idle \<and>
   length to_close' + length temp_idle' = length queue + length to_close + length temp_idle \<and>
   (distinct (queue @ to_close @ temp_idle) \<longrightarrow> distinct (to_close' @ temp_idle'))"
proof (induction queue arbitrary: to_close temp_idle)
  case Nil
  then show ?case by auto
next
  case (Cons conn queue)
  show ?case
  proof (cases "(case objects pool conn of None \<Rightarrow> 0 | Some obj \<Rightarrow> now - last_used_at obj)
                  > max_idle_time pool \<and>
                int (card (connections pool)) - int (length to_close) > min_connections pool")
    case True
    with Cons.prems have "cleanup_loop pool now queue (to_close @ [conn]) temp_idle = (to_close', temp_idle')"
      by (simp add: Let_def)
    from Cons.IH [OF this] show ?thesis by auto
  next
    case False
    with Cons.prems have "cleanup_loop pool now queue to_close (temp_idle @ [conn]) = (to_close', temp_idle')"
      by (auto simp: Let_def split: if_splits)
    from Cons.IH [OF this] show ?thesis by auto
  qed
qed

lemma pool_inv_cleanup:
  assumes inv: "pool_inv pool"
  shows "pool_inv (cleanup_idle_connections pool now) \<and>
         closed (cleanup_idle_connections pool now) = closed pool \<and>
         max_connections (cleanup_idle_connections pool now) = max_connections pool \<and>
         only_fresh pool (cleanup_idle_connections pool now)"
proof -
  obtain to_close temp_idle where loop: "cleanup_loop pool now (idle pool) [] [] = (to_close, temp_idle)"
    by (cases "cleanup_loop pool now (idle pool) [] []")
  then have p: "cleanup_idle_connections pool now =
      pool\<lparr>idle := temp_idle, connections := connections pool - set to_close\<rparr>"
    by (simp add: cleanup_idle_connections_def)
  from inv have wf: "pool_wf pool" by (simp add: pool_inv_def)
  then have fin: "finite (busy pool)" and dist: "distinct (idle pool)"
    and disj: "set (idle pool) \<inter> busy pool = {}"
    and conns: "connections pool = set (idle pool) \<union> busy pool"
    and ids: "\<forall>conn \<in> connections pool. conn < next_id pool"
    by (auto simp: pool_wf_def)
  from cleanup_loop_partition [OF loop] dist
  have sets: "set to_close \<union> set temp_idle = set (idle pool)"
    and len: "length to_close + length temp_idle = length (idle pool)"
    and d: "distinct (to_close @ temp_idle)"
    by simp_all
  have wf': "pool_wf (cleanup_idle_connections pool now)"
    using fin disj conns ids sets d unfolding pool_wf_def p by auto
  have "temp_idle = []" if "idle pool = []"
    using that len by simp
  then have "pool_inv (cleanup_idle_connections pool now)"
    using inv wf' len unfolding pool_inv_def p by auto
  moreover have "only_fresh pool (cleanup_idle_connections pool now)"
    unfolding only_fresh_def p by simp
  ultimately show ?thesis by (simp add: p)
qed

lemma pool_step_inv:
  assumes inv: "pool_inv pool"
  shows "pool_inv (snd (pool_step new_client pool operation)) \<and>
         max_connections (snd (pool_step new_client pool operation)) = max_connections pool \<and>
         only_fresh pool (snd (pool_step new_client pool operation)) \<and>
         (closed pool \<longrightarrow> closed (snd (pool_step new_client pool operation))) \<and>
         (\<forall>conn. fst (pool_step new_client pool operation) = Some (Inr conn) \<longrightarrow>
            conn \<notin> busy pool \<and> conn \<in> connections (snd (pool_step new_client pool operation))) \<and>
         (closed pool \<longrightarrow> fst (pool_step new_client pool operation) = None \<or>
            fst (pool_step new_client pool operation) = Some (Inl pool_closed_error))"
proof (cases operation)
  case (Acquire now)
  obtain r pool' where a: "acquire new_client pool now = (r, pool')"
    by (cases "acquire new_client pool now")
  from pool_inv_acquire [OF inv a] a Acquire show ?thesis
    by (simp add: pool_closed_error_def)
next
  case (Release conn now)
  with pool_inv_release [OF inv, of conn now] show ?thesis by simp
next
  case Close
  with pool_inv_close [OF inv] show ?thesis by simp
next
  case (SetHealthy conn h)
  with pool_inv_set_healthy [OF inv, of conn h] show ?thesis by simp
next
  case (IdleSweep now)
  with pool_inv_cleanup [OF inv, of now] show ?thesis by simp
qed

lemma pool_run_inv:
  "pool_inv pool \<Longrightarrow>
   pool_inv (pool_run new_client pool ops) \<and>
   max_connections (pool_run new_client pool ops) = max_connections pool"
proof (induction ops arbitrary: pool)
  case Nil
  then show ?case by simp
next
  case (Cons operation ops)
  from pool_step_inv [OF Cons.prems, of new_client operation]
  have "pool_inv (snd (pool_step new_client pool operation))"
    "max_connections (snd (pool_step new_client pool operation)) = max_connections pool"
    by simp_all
  with Cons.IH [of "snd (pool_step new_client pool operation)"] show ?case by simp
qed

lemma configured_pool_inv: "configured_pool pool \<Longrightarrow> pool_inv pool"
  by (auto simp: configured_pool_def pool_inv_def pool_wf_def)

lemma pool_inv_card_connections:
  assumes "pool_inv pool"
  shows "int (card (connections pool)) \<le> max_connections pool"
proof -
  from assms have c: "connections pool = set (idle pool) \<union> busy pool"
    and fin: "finite (busy pool)"
    and total: "int (length (idle pool)) + int (card (busy pool)) \<le> max_connections pool"
    by (auto simp: pool_inv_def pool_wf_def)
  have "card (set (idle pool) \<union> busy pool) \<le> card (set (idle pool)) + card (busy pool)"
    by (rule card_Un_le)
  also have "\<dots> \<le> length (idle pool) + card (busy pool)"
    by (simp add: card_length)
  finally show ?thesis using c total by simp
qed

lemma discarded_never_acquired:
  "pool_inv pool \<Longrightarrow> conn \<notin> connections pool \<Longrightarrow> conn < next_id pool \<Longrightarrow>
   Some (Inr conn) \<notin> set (pool_results new_client pool ops)"
proof (induction ops arbitrary: pool)
  case Nil
  then show ?case by simp
next
  case (Cons operation ops)
  let ?r = "fst (pool_step new_client pool operation)"
  let ?p = "snd (pool_step new_client pool operation)"
  note step = pool_step_inv [OF Cons.prems(1), of new_client operation]
  from step have fresh: "only_fresh pool ?p" by simp
  with Cons.prems have gone: "conn \<notin> connections ?p" "conn < next_id ?p"
    by (auto simp: only_fresh_def)
  with step have "?r \<noteq> Some (Inr conn)" by auto
  moreover from step gone have "Some (Inr conn) \<notin> set (pool_results new_client ?p ops)"
    by (intro Cons.IH) simp_all
  ultimately show ?case by simp
qed

lemma closed_pool_refuses:
  "pool_inv pool \<Longrightarrow> closed pool \<Longrightarrow>
   \<forall>r \<in> set (pool_results new_client pool ops). r = None \<or> r = Some (Inl pool_closed_error)"
proof (induction ops arbitrary: pool)
  case Nil
  then show ?case by simp
next
  case (Cons operation ops)
  note step = pool_step_inv [OF Cons.prems(1), of new_client operation]
  with Cons.prems(2) have "pool_inv (snd (pool_step new_client pool operation))"
    "closed (snd (pool_step new_client pool operation))"
    by simp_all
  from Cons.IH [OF this] step Cons.prems(2) show ?case by simp
qed

text \<open>
  C9: the pool's invariants. For a pool \<open>pool\<close> reached by any run of \<open>acquire\<close>,
  \<open>release\<close>, \<open>close\<close>, writes to \<open>healthy\<close> and idle sweeps from a configured
  pool: a connection that \<open>acquire\<close> returns is not in the busy set; the live
  connections number at most \<open>max_connections\<close>; after the release of a busy
  connection marked unhealthy no later \<open>acquire\<close> returns it, whatever run follows;
  and after \<open>close\<close> every \<open>acquire\<close> of any run that follows raises the
  pool-is-closed error.
\<close>

theorem connection_pool_invariants:
  assumes "configured_pool pool0" and "pool = pool_run new_client pool0 history"
  shows "(\<forall>conn. fst (acquire new_client pool now) = Inr conn \<longrightarrow> conn \<notin> busy pool) \<and>
         int (card (connections pool)) \<le> max_connections pool0 \<and>
         (conn \<in> busy pool \<and> \<not> is_healthy pool conn \<longrightarrow>
            Some (Inr conn) \<notin> set (pool_results new_client (release pool conn now) ops)) \<and>
         (\<forall>r \<in> set (pool_results new_client (close pool) ops).
            r = None \<or> r = Some (Inl pool_closed_error))"
proof -
  have inv: "pool_inv pool" and m: "max_connections pool = max_connections pool0"
    using assms configured_pool_inv [of pool0] pool_run_inv [of pool0 new_client history]
    by simp_all
  have "\<forall>conn. fst (acquire new_client pool now) = Inr conn \<longrightarrow> conn \<notin> busy pool"
    using pool_inv_acquire [OF inv, of new_client now]
    by (cases "acquire new_client pool now") simp
  moreover have "int (card (connections pool)) \<le> max_connections pool0"
    using pool_inv_card_connections [OF inv] m by simp
  moreover have "conn \<in> busy pool \<and> \<not> is_healthy pool conn \<longrightarrow>
      Some (Inr conn) \<notin> set (pool_results new_client (release pool conn now) ops)"
  proof
    assume a: "conn \<in> busy pool \<and> \<not> is_healthy pool conn"
    note rel = pool_inv_release [OF inv, of conn now]
    from a inv have "conn < next_id pool"
      by (auto simp: pool_inv_def pool_wf_def)
    with rel have "conn < next_id (release pool conn now)"
      by (auto simp: only_fresh_def)
    moreover from a rel have "conn \<notin> connections (release pool conn now)" by simp
    ultimately show "Some (Inr conn) \<notin> set (pool_results new_client (release pool conn now) ops)"
      using rel by (intro discarded_never_acquired) simp_all
  qed
  moreover have "\<forall>r \<in> set (pool_results new_client (close pool) ops).
      r = None \<or> r = Some (Inl pool_closed_error)"
    using pool_inv_close [OF inv] by (intro closed_pool_refuses) simp_all
  ultimately show ?thesis by blast
qed

lemmas pool_eval =
  example_pool_def always_connects_def acquire_def release_def close_def set_healthy_def
  initialize_def create_connection_def mark_used_def is_healthy_def Let_def pool_closed_error_def

theorem connection_pool_invariants_witness:
  "configured_pool example_pool \<and>
   fst (acquire always_connects (pool_run always_connects example_pool [Acquire 0]) 1) = Inr 1 \<and>
   1 \<notin> busy (pool_run always_connects example_pool [Acquire 0]) \<and>
   int (card (connections (pool_run always_connects example_pool [Acquire 0, Acquire 1]))) \<le> 10 \<and>
   0 \<in> busy (pool_run always_connects example_pool [Acquire 0, SetHealthy 0 False]) \<and>
   Some (Inr 0) \<notin> set (pool_results always_connects
      (release (pool_run always_connects example_pool [Acquire 0, SetHealthy 0 False]) 0 2)
      [Acquire 3, Acquire 4]) \<and>
   pool_results always_connects (close (pool_run always_connects example_pool [Acquire 0])) [Acquire 1]
     = [Some (Inl pool_closed_error)]"
proof -
  have c: "configured_pool example_pool"
    by (simp add: configured_pool_def example_pool_def)
  note inv = connection_pool_invariants [OF c refl]
  have a: "fst (acquire always_connects (pool_run always_connects example_pool [Acquire 0]) 1) = Inr 1"
    by (simp add: pool_eval)
  with inv [where new_client = always_connects and history = "[Acquire 0]" and now = 1]
  have fresh: "1 \<notin> busy (pool_run always_connects example_pool [Acquire 0])"
    by blast
  have m: "max_connections example_pool = 10"
    by (simp add: example_pool_def)
  with inv [where new_client = always_connects and history = "[Acquire 0, Acquire 1]"]
  have bound: "int (card (connections (pool_run always_connects example_pool [Acquire 0, Acquire 1]))) \<le> 10"
    by simp
  let ?p = "pool_run always_connects example_pool [Acquire 0, SetHealthy 0 False]"
  have u: "0 \<in> busy ?p" "\<not> is_healthy ?p 0"
    by (simp_all add: pool_eval)
  with inv [where new_client = always_connects and history = "[Acquire 0, SetHealthy 0 False]"
      and conn = 0 and now = 2 and ops = "[Acquire 3, Acquire 4]"]
  have gone: "Some (Inr 0) \<notin> set (pool_results always_connects (release ?p 0 2) [Acquire 3, Acquire 4])"
    by blast
  have "pool_results always_connects (close (pool_run always_connects example_pool [Acquire 0])) [Acquire 1]
     = [Some (Inl pool_closed_error)]"
    using inv [where new_client = always_connects and history = "[Acquire 0]" and ops = "[Acquire 1]"]
    by (simp add: pool_eval)
  with c a fresh bound u gone show ?thesis by simp
qed

end
